theory Spec2Isabelle
  imports
    Main
    "HOL-Library.Char_ord"
    "HOL-Library.Multiset"
    "HOL-Library.List_Lexorder"
begin

section \<open>Python strings and integer formatting\<close>

text \<open>
  A Python \<open>str\<close> is a sequence of code points. The model uses \<^typ>\<open>string\<close>, whose
  characters are the code points below 256; \<^term>\<open>of_char c\<close> is the code point of \<open>c\<close>.
\<close>

definition digit_char :: "nat \<Rightarrow> char" where
  "digit_char d = char_of (48 + d)"

text \<open>\<open>str(n)\<close> for a non-negative integer: its decimal digits.\<close>

fun str_nat :: "nat \<Rightarrow> string" where
  "str_nat n = (if n < 10 then [digit_char n] else str_nat (n div 10) @ [digit_char (n mod 10)])"

declare str_nat.simps [simp del]

text \<open>
  The format specification \<open>{n:0wd}\<close>: the sign first, then zeros up to the total width \<open>w\<close>
  (the sign counts), then the digits. A number wider than \<open>w\<close> is not cut.
\<close>

definition fmt_0d :: "nat \<Rightarrow> int \<Rightarrow> string" where
  "fmt_0d w n =
     (let sgn = (if n < 0 then ''-'' else ''''); ds = str_nat (nat \<bar>n\<bar>)
      in sgn @ replicate (w - length sgn - length ds) (CHR ''0'') @ ds)"

section \<open>\<open>format_duration_ms\<close>\<close>

text \<open>
  \<^verbatim>\<open>
  def format_duration_ms(ms):
      if ms is None: return ""
      seconds, milli = divmod(int(ms), 1000)
      mins, sec = divmod(seconds, 60)
      hours, mins = divmod(mins, 60)
      return f"{hours:02d}:{mins:02d}:{sec:02d}.{milli:03d}"
  \<close>
  Python's \<open>divmod\<close> floors, as \<open>div\<close> and \<open>mod\<close> on \<^typ>\<open>int\<close> do.
\<close>

definition format_duration_ms :: "int option \<Rightarrow> string" where
  "format_duration_ms ms =
     (case ms of
        None \<Rightarrow> ''''
      | Some v \<Rightarrow>
          (let seconds = v div 1000; milli = v mod 1000;
               mins = seconds div 60; sec = seconds mod 60;
               hours = mins div 60; mins' = mins mod 60
           in fmt_0d 2 hours @ '':'' @ fmt_0d 2 mins' @ '':'' @ fmt_0d 2 sec @ ''.'' @ fmt_0d 3 milli))"

section \<open>Exceptions\<close>

text \<open>
  The exceptions the program can meet, as values. A function that can raise returns
  \<open>py_error + 'a\<close>, with \<open>Inl\<close> for the exception.
\<close>

datatype py_error =
    TypeError | ValueError | OverflowError | AttributeError | UnboundLocalError
  | FileNotFoundError | IsADirectoryError

section \<open>Floats\<close>

text \<open>
  A Python \<open>float\<close> is an IEEE 754 double. \<open>Finite m e\<close> stands for the number
  \<open>m * 2 ^ e\<close>; every operation below rounds its exact result to the nearest double, ties to
  even, as the hardware does. Negative zero and NaN do not arise in this program and are not
  represented.
\<close>

datatype pyfloat = Finite int int | PosInf | NegInf

text \<open>\<open>round_half_even a b\<close> is the integer nearest to \<open>a / b\<close> for \<open>b > 0\<close>, ties to even.\<close>

definition round_half_even :: "int \<Rightarrow> int \<Rightarrow> int" where
  "round_half_even a b =
     (let q = a div b; r = a mod b
      in if 2 * r < b then q else if b < 2 * r then q + 1 else if even q then q else q + 1)"

text \<open>
  \<open>to_double n d\<close> is the double nearest to the fraction \<open>n / d\<close>, for \<open>d > 0\<close>: with
  \<open>2 ^ e0 \<le> |n / d| < 2 ^ (e0 + 1)\<close>, the significand has 53 bits, so the unit in the last
  place is \<open>2 ^ (e0 - 52)\<close>, never below the subnormal spacing \<open>2 ^ (- 1074)\<close>; a result of
  \<open>2 ^ 1024\<close> or more overflows to infinity.
\<close>

text \<open>The number of binary digits of a positive integer (\<open>int.bit_length\<close>).\<close>

function bit_length :: "int \<Rightarrow> int" where
  "bit_length n = (if n \<le> 0 then 0 else 1 + bit_length (n div 2))"
  by pat_completeness auto
termination
  by (relation "measure nat") auto

declare bit_length.simps [simp del]

definition to_double :: "int \<Rightarrow> int \<Rightarrow> pyfloat" where
  "to_double n d =
     (if n = 0 then Finite 0 0
      else
        let a = \<bar>n\<bar>;
            k = bit_length a - bit_length d;
            e0 = (if d * 2 ^ nat k \<le> a * 2 ^ nat (- k) then k else k - 1);
            e = max (e0 - 52) (- 1074);
            m = round_half_even (a * 2 ^ nat (- e)) (d * 2 ^ nat e)
        in if 2 ^ 1024 \<le> m * 2 ^ nat e then (if n < 0 then NegInf else PosInf)
           else Finite (sgn n * m) e)"

text \<open>\<open>x * 1000\<close> for a float \<open>x\<close> (the integer 1000 converts to a float exactly).\<close>

fun times_1000 :: "pyfloat \<Rightarrow> pyfloat" where
  "times_1000 (Finite m e) = to_double (m * 1000 * 2 ^ nat e) (2 ^ nat (- e))"
| "times_1000 PosInf = PosInf"
| "times_1000 NegInf = NegInf"

text \<open>\<open>int(x)\<close> truncates towards zero and raises \<open>OverflowError\<close> on an infinity.\<close>

fun py_int :: "pyfloat \<Rightarrow> py_error + int" where
  "py_int (Finite m e) =
     Inr (if 0 \<le> e then m * 2 ^ nat e else sgn m * (\<bar>m\<bar> div 2 ^ nat (- e)))"
| "py_int PosInf = Inl OverflowError"
| "py_int NegInf = Inl OverflowError"

text \<open>
  The format specification \<open>{x:.3f}\<close>: the exact value of the double, rounded to three
  decimals (ties to even); an infinity prints as \<open>inf\<close>.
\<close>

fun fmt_3f :: "pyfloat \<Rightarrow> string" where
  "fmt_3f (Finite m e) =
     (let n = round_half_even (\<bar>m\<bar> * 1000 * 2 ^ nat e) (2 ^ nat (- e))
      in (if m < 0 then ''-'' else []) @ str_nat (nat (n div 1000)) @ ''.'' @ fmt_0d 3 (n mod 1000))"
| "fmt_3f PosInf = ''inf''"
| "fmt_3f NegInf = ''-inf''"

section \<open>Timestamps\<close>

text \<open>
  A \<open>datetime\<close> is the reading of a wall clock, counted in microseconds from
  0001-01-01T00:00:00, and is either naive (no offset) or aware (with its offset from UTC in
  microseconds). Python's \<open>datetime\<close> has no \<open>__bool__\<close>, so every \<open>datetime\<close> is truthy.
\<close>

record datetime =
  wall_us :: int
  utcoffset_us :: "int option"

text \<open>
  \<open>a - b\<close> on datetimes gives a \<open>timedelta\<close>, here its total number of microseconds. Two
  aware datetimes are compared in UTC; a naive and an aware one cannot be subtracted
  (\<open>TypeError: can't subtract offset-naive and offset-aware datetimes\<close>).
\<close>

definition datetime_sub :: "datetime \<Rightarrow> datetime \<Rightarrow> py_error + int" where
  "datetime_sub a b =
     (case (utcoffset_us a, utcoffset_us b) of
        (None, None) \<Rightarrow> Inr (wall_us a - wall_us b)
      | (Some oa, Some ob) \<Rightarrow> Inr ((wall_us a - oa) - (wall_us b - ob))
      | _ \<Rightarrow> Inl TypeError)"

text \<open>\<open>timedelta.total_seconds()\<close>: the microseconds divided by \<open>10 ** 6\<close>, as a float.\<close>

definition total_seconds :: "int \<Rightarrow> pyfloat" where
  "total_seconds us = to_double us 1000000"

text \<open>
  The library functions the program calls on timestamps and does not define. They are
  parameters of the model: \<open>fromisoformat\<close> is \<open>datetime.fromisoformat\<close> (raising is
  \<open>Inl\<close>), \<open>isoformat\<close> is \<open>datetime.isoformat\<close>, \<open>to_datetime\<close> is
  \<open>pandas.to_datetime(column, errors="coerce")\<close> on a whole column of strings, giving for each
  row its instant in nanoseconds or \<open>None\<close> for \<open>NaT\<close>, and \<open>exc_str\<close> is \<open>str(e)\<close> for an
  exception \<open>e\<close>.
\<close>

record pylib =
  fromisoformat :: "string \<Rightarrow> py_error + datetime"
  isoformat :: "datetime \<Rightarrow> string"
  to_datetime :: "string list \<Rightarrow> py_error + int option list"
  exc_str :: "py_error \<Rightarrow> string"

section \<open>String operations\<close>

text \<open>\<open>str.isspace\<close> on one character, which is also what \<open>\s\<close> matches in a pattern.\<close>

definition is_space :: "char \<Rightarrow> bool" where
  "is_space c = ((of_char c :: nat) \<in> {9, 10, 11, 12, 13, 28, 29, 30, 31, 32, 133, 160})"

definition lstrip :: "string \<Rightarrow> string" where
  "lstrip s = dropWhile is_space s"

definition rstrip :: "string \<Rightarrow> string" where
  "rstrip s = rev (dropWhile is_space (rev s))"

definition strip :: "string \<Rightarrow> string" where
  "strip s = rstrip (lstrip s)"

text \<open>\<open>s.strip(q)\<close> for a single character \<open>q\<close>.\<close>

definition strip_char :: "char \<Rightarrow> string \<Rightarrow> string" where
  "strip_char q s = rev (dropWhile (\<lambda>c. c = q) (rev (dropWhile (\<lambda>c. c = q) s)))"

text \<open>\<open>str.lower\<close>: the upper-case letters below 256 are A-Z and the letters 192-222 but 215.\<close>

definition lower_char :: "char \<Rightarrow> char" where
  "lower_char c =
     (let n = (of_char c :: nat)
      in if (65 \<le> n \<and> n \<le> 90) \<or> (192 \<le> n \<and> n \<le> 222 \<and> n \<noteq> 215) then char_of (n + 32) else c)"

definition lower :: "string \<Rightarrow> string" where
  "lower s = map lower_char s"

definition startswith :: "string \<Rightarrow> string \<Rightarrow> bool" where
  "startswith s p = (take (length p) s = p)"

text \<open>The test \<open>x in s\<close> on strings.\<close>

fun contains :: "string \<Rightarrow> string \<Rightarrow> bool" where
  "contains x [] = (x = [])"
| "contains x (c # cs) = (startswith (c # cs) x \<or> contains x cs)"

text \<open>\<open>s.split()\<close>: the words between runs of whitespace. \<open>cur\<close> is the word being read, reversed.\<close>

fun split_from :: "string \<Rightarrow> string \<Rightarrow> string list" where
  "split_from cur [] = (if cur = [] then [] else [rev cur])"
| "split_from cur (c # cs) =
     (if is_space c then (if cur = [] then split_from [] cs else rev cur # split_from [] cs)
      else split_from (c # cur) cs)"

definition py_split :: "string \<Rightarrow> string list" where
  "py_split s = split_from [] s"

text \<open>
  \<open>s.splitlines()\<close>: the line boundaries below 256 are LF, VT, FF, CR, CR LF, FS, GS, RS and
  NEL; a final line break does not open an empty line.
\<close>

definition is_linebreak :: "char \<Rightarrow> bool" where
  "is_linebreak c = ((of_char c :: nat) \<in> {10, 11, 12, 13, 28, 29, 30, 133})"

fun splitlines_from :: "string \<Rightarrow> string \<Rightarrow> string list" where
  "splitlines_from cur [] = (if cur = [] then [] else [rev cur])"
| "splitlines_from cur (c # cs) =
     (if c = CHR 0x0D then
        (case cs of
           c' # cs' \<Rightarrow>
             if c' = CHR 0x0A then rev cur # splitlines_from [] cs'
             else rev cur # splitlines_from [] (c' # cs')
         | [] \<Rightarrow> [rev cur])
      else if is_linebreak c then rev cur # splitlines_from [] cs
      else splitlines_from (c # cur) cs)"

definition splitlines :: "string \<Rightarrow> string list" where
  "splitlines s = splitlines_from [] s"

text \<open>
  \<open>float(s)\<close> for a decimal numeral \<open>digits [. digits]\<close> or \<open>. digits\<close>, the only strings this
  program passes to it; anything else is reported as \<open>ValueError\<close>.
\<close>

definition is_digit :: "char \<Rightarrow> bool" where
  "is_digit c = (48 \<le> (of_char c :: nat) \<and> (of_char c :: nat) \<le> 57)"

definition digits_value :: "string \<Rightarrow> int" where
  "digits_value ds = foldl (\<lambda>a c. 10 * a + (int (of_char c) - 48)) 0 ds"

definition py_float :: "string \<Rightarrow> py_error + pyfloat" where
  "py_float s =
     (let ip = takeWhile is_digit s; r = dropWhile is_digit s
      in case r of
           [] \<Rightarrow> if ip = [] then Inl ValueError else Inr (to_double (digits_value ip) 1)
         | c # fp \<Rightarrow>
             if c = CHR ''.'' \<and> list_all is_digit fp \<and> (ip \<noteq> [] \<or> fp \<noteq> [])
             then Inr (to_double (digits_value (ip @ fp)) (10 ^ length fp))
             else Inl ValueError)"

section \<open>Regular expressions\<close>

text \<open>
  The fragment of Python's \<open>re\<close> that the two patterns of the program use. Repetition is
  over a single character class, greedy (\<open>*\<close>) or lazy (\<open>*?\<close>); \<open>+\<close> is one character
  followed by \<open>*\<close>. \<open>LitI\<close> is a literal under \<open>re.IGNORECASE\<close>, \<open>Grp\<close> a named group,
  \<open>Opt\<close> the greedy \<open>?\<close>, \<open>Bol\<close> and \<open>Eol\<close> are \<open>^\<close> and \<open>$\<close> without \<open>re.MULTILINE\<close>.
\<close>

datatype regex =
    Lit char
  | LitI char
  | Cls "char \<Rightarrow> bool"
  | StarG "char \<Rightarrow> bool"
  | StarL "char \<Rightarrow> bool"
  | Seq regex regex
  | Opt regex
  | Grp string regex
  | Bol
  | Eol

definition PlusG :: "(char \<Rightarrow> bool) \<Rightarrow> regex" where
  "PlusG p = Seq (Cls p) (StarG p)"

definition PlusL :: "(char \<Rightarrow> bool) \<Rightarrow> regex" where
  "PlusL p = Seq (Cls p) (StarL p)"

fun cat :: "regex list \<Rightarrow> regex" where
  "cat [] = Opt Bol"
| "cat [r] = r"
| "cat (r # rs) = Seq r (cat rs)"

text \<open>
  A state of the matcher: the position reached, the text still to read, and the groups
  closed so far, the latest first. \<open>matches r st\<close> lists every way \<open>r\<close> can match from \<open>st\<close>, in
  the order in which the backtracking matcher tries them: the first element is the match
  it returns.
\<close>

type_synonym mstate = "nat \<times> string \<times> (string \<times> string) list"

fun star_greedy :: "(char \<Rightarrow> bool) \<Rightarrow> mstate \<Rightarrow> mstate list" where
  "star_greedy p (i, [], g) = [(i, [], g)]"
| "star_greedy p (i, x # xs, g) =
     (if p x then star_greedy p (Suc i, xs, g) @ [(i, x # xs, g)] else [(i, x # xs, g)])"

fun star_lazy :: "(char \<Rightarrow> bool) \<Rightarrow> mstate \<Rightarrow> mstate list" where
  "star_lazy p (i, [], g) = [(i, [], g)]"
| "star_lazy p (i, x # xs, g) =
     (i, x # xs, g) # (if p x then star_lazy p (Suc i, xs, g) else [])"

fun one_char :: "(char \<Rightarrow> bool) \<Rightarrow> mstate \<Rightarrow> mstate list" where
  "one_char p (i, [], g) = []"
| "one_char p (i, x # xs, g) = (if p x then [(Suc i, xs, g)] else [])"

fun close_group :: "string \<Rightarrow> mstate \<Rightarrow> mstate \<Rightarrow> mstate" where
  "close_group n (i, s, g) (j, s', g') = (j, s', (n, take (j - i) s) # g')"

fun matches :: "regex \<Rightarrow> mstate \<Rightarrow> mstate list" where
  "matches (Lit c) st = one_char (\<lambda>x. x = c) st"
| "matches (LitI c) st = one_char (\<lambda>x. lower_char x = lower_char c) st"
| "matches (Cls p) st = one_char p st"
| "matches (StarG p) st = star_greedy p st"
| "matches (StarL p) st = star_lazy p st"
| "matches (Seq a b) st = concat (map (matches b) (matches a st))"
| "matches (Opt r) st = matches r st @ [st]"
| "matches (Grp n r) st = map (close_group n st) (matches r st)"
| "matches Bol (i, s, g) = (if i = 0 then [(i, s, g)] else [])"
| "matches Eol (i, s, g) = (if s = [] \<or> s = [CHR 0x0A] then [(i, s, g)] else [])"

text \<open>
  A match object: where the match starts and ends, and its groups. \<open>re_match\<close> is
  \<open>pattern.match(s)\<close>, which tries position 0 only; \<open>re_search\<close> is \<open>pattern.search(s)\<close>,
  which tries every position from the left.
\<close>

record match_obj =
  m_start :: nat
  m_end :: nat
  m_groups :: "(string \<times> string) list"

definition match_at :: "regex \<Rightarrow> nat \<Rightarrow> string \<Rightarrow> match_obj option" where
  "match_at r i s =
     (case matches r (i, s, []) of
        [] \<Rightarrow> None
      | (j, s', g) # _ \<Rightarrow> Some \<lparr>m_start = i, m_end = j, m_groups = g\<rparr>)"

definition re_match :: "regex \<Rightarrow> string \<Rightarrow> match_obj option" where
  "re_match r s = match_at r 0 s"

fun search_from :: "regex \<Rightarrow> nat \<Rightarrow> string \<Rightarrow> match_obj option" where
  "search_from r i [] = match_at r i []"
| "search_from r i (c # cs) =
     (case match_at r i (c # cs) of
        Some m \<Rightarrow> Some m
      | None \<Rightarrow> search_from r (Suc i) cs)"

definition re_search :: "regex \<Rightarrow> string \<Rightarrow> match_obj option" where
  "re_search r s = search_from r 0 s"

text \<open>\<open>m.group(name)\<close>: the text of the group, or \<open>None\<close> when it took no part in the match.\<close>

definition group :: "match_obj \<Rightarrow> string \<Rightarrow> string option" where
  "group m n = map_of (m_groups m) n"

text \<open>
  \<^verbatim>\<open>LINE_RE = re.compile(r"^\[(?P<ts>[^\]]+)\]\s*(?P<component>[^:]+):\s*(?P<event>[^-]+?)(?:-\s*(?P<details>.*))?$")\<close>
  \<^verbatim>\<open>CONF_RE = re.compile(r"with confidence\s+(?P<conf>[0-9]*\.?[0-9]+)", re.IGNORECASE)\<close>
  The dot matches every character but LF.
\<close>

definition LINE_RE :: regex where
  "LINE_RE =
     cat [Bol, Lit (CHR ''[''), Grp ''ts'' (PlusG (\<lambda>c. c \<noteq> CHR '']'')), Lit (CHR '']''),
          StarG is_space, Grp ''component'' (PlusG (\<lambda>c. c \<noteq> CHR '':'')), Lit (CHR '':''),
          StarG is_space, Grp ''event'' (PlusL (\<lambda>c. c \<noteq> CHR ''-'')),
          Opt (cat [Lit (CHR ''-''), StarG is_space, Grp ''details'' (StarG (\<lambda>c. c \<noteq> CHR 0x0A))]),
          Eol]"

definition WITH_CONFIDENCE :: regex where
  "WITH_CONFIDENCE = cat (map LitI ''with confidence'')"

definition CONF_RE :: regex where
  "CONF_RE =
     cat [WITH_CONFIDENCE, PlusG is_space,
          Grp ''conf'' (cat [StarG is_digit, Opt (Lit (CHR ''.'')), PlusG is_digit])]"

section \<open>Events\<close>

text \<open>
  An event is a dictionary with the keys \<open>ts\<close>, \<open>component\<close>, \<open>event\<close>, \<open>details\<close> and
  \<open>raw\<close>, always present (\<open>None\<close> is Python's \<open>None\<close>), and the keys \<open>duration_ms\<close> and
  \<open>duration_hms\<close>, which \<open>compute_inference_duration\<close> removes and sets: such a key is
  absent, or holds \<open>None\<close>, or holds a value. The events of a list are distinct objects, as
  \<open>parse_log_lines\<close> creates them.
\<close>

datatype 'a dict_value = Absent | PyNone | Present 'a

text \<open>\<open>d.get(key)\<close>: \<open>None\<close> for an absent key as for a key that holds \<open>None\<close>.\<close>

fun dict_get :: "'a dict_value \<Rightarrow> 'a option" where
  "dict_get Absent = None"
| "dict_get PyNone = None"
| "dict_get (Present v) = Some v"

record log_event =
  ts :: "datetime option"
  component :: "string option"
  event :: "string option"
  details :: string
  raw :: string
  duration_ms :: "int dict_value"
  duration_hms :: "string dict_value"

section \<open>\<open>parse_log_lines\<close>\<close>

text \<open>
  The event of a line that \<open>LINE_RE\<close> matches. \<open>m.group("details") or ""\<close> is the empty
  string when the group took no part; calling \<open>strip\<close> on a group that took no part would
  raise \<open>AttributeError\<close>, and \<open>fromisoformat\<close> raises inside the \<open>try\<close>, whose handler sets
  \<open>ts = None\<close>.
\<close>

definition matched_event :: "pylib \<Rightarrow> string \<Rightarrow> match_obj \<Rightarrow> py_error + log_event" where
  "matched_event L line m =
     (let ts_s = group m ''ts'';
          ts_v = (case ts_s of
                    None \<Rightarrow> None
                  | Some t \<Rightarrow> (case fromisoformat L t of Inr d \<Rightarrow> Some d | Inl _ \<Rightarrow> None));
          details_group = (case group m ''details'' of None \<Rightarrow> [] | Some d \<Rightarrow> d)
      in case (group m ''component'', group m ''event'') of
           (Some c, Some e) \<Rightarrow>
             Inr \<lparr>ts = ts_v, component = Some (strip c), event = Some (strip e),
                  details = strip details_group, raw = line,
                  duration_ms = Absent, duration_hms = Absent\<rparr>
         | _ \<Rightarrow> Inl AttributeError)"

fun parse_log_lines :: "pylib \<Rightarrow> string list \<Rightarrow> py_error + log_event list" where
  "parse_log_lines L [] = Inr []"
| "parse_log_lines L (line0 # lines) =
     (let line = strip line0
      in if line = [] then parse_log_lines L lines
         else
           case (case re_match LINE_RE line of
                   None \<Rightarrow>
                     Inr \<lparr>ts = None, component = None, event = None, details = line, raw = line,
                          duration_ms = Absent, duration_hms = Absent\<rparr>
                 | Some m \<Rightarrow> matched_event L line m) of
             Inl e \<Rightarrow> Inl e
           | Inr ev \<Rightarrow>
               (case parse_log_lines L lines of
                  Inl e \<Rightarrow> Inl e
                | Inr events \<Rightarrow> Inr (ev # events)))"

section \<open>\<open>find_ground_truth\<close>\<close>

fun find_ground_truth :: "string list \<Rightarrow> string option" where
  "find_ground_truth [] = None"
| "find_ground_truth (line # lines) =
     (if contains ''ground truth'' (lower line) \<or> contains ''objeto verdad'' (lower line)
         \<or> contains ''objeto_verdad'' (lower line)
      then (case py_split line of
              [] \<Rightarrow> find_ground_truth lines
            | p # ps \<Rightarrow> Some (strip_char (CHR 0x22) (last (p # ps))))
      else find_ground_truth lines)"

section \<open>\<open>compute_inference_duration\<close>\<close>

text \<open>\<open>int((ts_cur - ts_prev).total_seconds() * 1000)\<close>, with what it can raise.\<close>

definition delta_ms :: "datetime \<Rightarrow> datetime \<Rightarrow> py_error + int" where
  "delta_ms ts_cur ts_prev =
     (case datetime_sub ts_cur ts_prev of
        Inl e \<Rightarrow> Inl e
      | Inr td \<Rightarrow> py_int (times_1000 (total_seconds td)))"

text \<open>The first loop: both duration keys are removed from an event.\<close>

definition pop_durations :: "log_event \<Rightarrow> log_event" where
  "pop_durations ev = ev\<lparr>duration_ms := Absent, duration_hms := Absent\<rparr>"

text \<open>The rule for the first event.\<close>

definition first_duration :: "log_event \<Rightarrow> log_event" where
  "first_duration ev =
     (if ts ev \<noteq> None
      then ev\<lparr>duration_ms := Present 0, duration_hms := Present (format_duration_ms (Some 0))\<rparr>
      else ev\<lparr>duration_ms := PyNone, duration_hms := PyNone\<rparr>)"

text \<open>The body of the loop over \<open>range(1, len(events))\<close>, for \<open>prev = events[i - 1]\<close> and
  \<open>cur = events[i]\<close>.\<close>

definition next_duration :: "log_event \<Rightarrow> log_event \<Rightarrow> log_event" where
  "next_duration prev cur =
     (case (ts prev, ts cur) of
        (Some ts_prev, Some ts_cur) \<Rightarrow>
          (case delta_ms ts_cur ts_prev of
             Inr v \<Rightarrow>
               cur\<lparr>duration_ms := Present v, duration_hms := Present (format_duration_ms (Some v))\<rparr>
           | Inl _ \<Rightarrow> cur\<lparr>duration_ms := PyNone, duration_hms := PyNone\<rparr>)
      | _ \<Rightarrow> cur\<lparr>duration_ms := PyNone, duration_hms := PyNone\<rparr>)"

fun durations_after :: "log_event \<Rightarrow> log_event list \<Rightarrow> log_event list" where
  "durations_after prev [] = []"
| "durations_after prev (cur # rest) =
     (let cur' = next_duration prev cur in cur' # durations_after cur' rest)"

text \<open>The function changes the events in place and returns nothing; the model returns the
  list of events as it is afterwards.\<close>

definition compute_inference_duration :: "log_event list \<Rightarrow> log_event list" where
  "compute_inference_duration events =
     (case map pop_durations events of
        [] \<Rightarrow> []
      | first # rest \<Rightarrow> (let first' = first_duration first in first' # durations_after first' rest))"

section \<open>Rows\<close>

text \<open>A cell that holds a number or a string: \<open>acierto\<close> is \<open>1\<close>, \<open>0\<close> or \<open>""\<close>.\<close>

datatype cell = IntCell int | StrCell string

record row =
  timestamp :: string
  modo :: string
  tipo_de_evento :: string
  escenario :: int
  distancia_m :: string
  iluminacion :: string
  objeto_verdad :: string
  objeto_predicho :: string
  confianza :: string
  t_total_ms :: string
  acierto :: cell
  notas :: string

section \<open>\<open>process_file\<close>\<close>

text \<open>
  The confidence of an event: \<open>CONF_RE.search(details)\<close>, then \<open>float\<close> of the group inside
  a \<open>try\<close> whose handler leaves \<open>conf = None\<close>.
\<close>

definition extract_conf :: "string \<Rightarrow> pyfloat option" where
  "extract_conf dets =
     (case re_search CONF_RE dets of
        None \<Rightarrow> None
      | Some conf_m \<Rightarrow>
          (case group conf_m ''conf'' of
             None \<Rightarrow> None
           | Some c \<Rightarrow> (case py_float c of Inr x \<Rightarrow> Some x | Inl _ \<Rightarrow> None)))"

text \<open>
  The label: \<open>re.split(r"with confidence", details, flags=re.IGNORECASE)[0]\<close> is the text
  before the first match of the pattern, or the whole text when nothing matches.
\<close>

definition extract_label :: "string \<Rightarrow> string" where
  "extract_label dets =
     (let label =
        (if contains ''with confidence'' (lower dets)
         then strip (case re_search WITH_CONFIDENCE dets of
                       None \<Rightarrow> dets
                     | Some m \<Rightarrow> take (m_start m) dets)
         else dets)
      in strip label)"

text \<open>
  The body of the loop over the events: no row for an event whose \<open>event\<close> is \<open>None\<close> or
  empty, one row otherwise. \<open>truth or ""\<close> and the test \<open>if truth\<close> treat \<open>None\<close> and the
  empty string alike.
\<close>

definition event_row :: "pylib \<Rightarrow> string option \<Rightarrow> int \<Rightarrow> string \<Rightarrow> log_event \<Rightarrow> row option" where
  "event_row L truth esc md ev =
     (case event ev of
        None \<Rightarrow> None
      | Some name \<Rightarrow>
          if name = [] then None
          else
            let dets = details ev;
                conf = extract_conf dets;
                label = extract_label dets;
                note = (if contains ''error'' (lower dets) then dets else []);
                truth_s = (case truth of None \<Rightarrow> [] | Some t \<Rightarrow> t)
            in Some
              \<lparr>timestamp = (case ts ev of None \<Rightarrow> [] | Some t \<Rightarrow> isoformat L t),
               modo = md,
               tipo_de_evento = strip name,
               escenario = esc,
               distancia_m = [],
               iluminacion = ''LED'',
               objeto_verdad = truth_s,
               objeto_predicho = label,
               confianza = (case conf of None \<Rightarrow> [] | Some x \<Rightarrow> fmt_3f x),
               t_total_ms = (case dict_get (duration_hms ev) of None \<Rightarrow> [] | Some h \<Rightarrow> h),
               acierto =
                 (if truth_s \<noteq> []
                  then IntCell (if truth_s \<noteq> [] \<and> label \<noteq> [] \<and> lower truth_s = lower label
                                then 1 else 0)
                  else StrCell []),
               notas = note\<rparr>)"

text \<open>
  The guard of the loop over the events, \<open>if not ev.get("event"): continue\<close>: an event whose
  \<open>event\<close> is \<open>None\<close> or empty gives no row.
\<close>

definition emits_row :: "log_event \<Rightarrow> bool" where
  "emits_row ev = (case event ev of None \<Rightarrow> False | Some name \<Rightarrow> name \<noteq> [])"

text \<open>The two backward scans of the fallback: the first truthy value met from the end.\<close>

fun last_ts :: "log_event list \<Rightarrow> datetime option" where
  "last_ts [] = None"
| "last_ts (ev # evs) = (case ts ev of Some t \<Rightarrow> Some t | None \<Rightarrow> last_ts evs)"

fun last_dh :: "log_event list \<Rightarrow> string" where
  "last_dh [] = []"
| "last_dh (ev # evs) =
     (case dict_get (duration_hms ev) of
        Some h \<Rightarrow> if h \<noteq> [] then h else last_dh evs
      | None \<Rightarrow> last_dh evs)"

definition no_result_row :: "pylib \<Rightarrow> string option \<Rightarrow> int \<Rightarrow> string \<Rightarrow> log_event list \<Rightarrow> row" where
  "no_result_row L truth esc md events =
     \<lparr>timestamp = (case last_ts (rev events) of None \<Rightarrow> [] | Some t \<Rightarrow> isoformat L t),
      modo = md,
      tipo_de_evento = ''no_result'',
      escenario = esc,
      distancia_m = [],
      iluminacion = ''LED'',
      objeto_verdad = (case truth of None \<Rightarrow> [] | Some t \<Rightarrow> t),
      objeto_predicho = [],
      confianza = [],
      t_total_ms = last_dh (rev events),
      acierto = StrCell [],
      notas = ''no result lines found''\<rparr>"

text \<open>
  \<open>process_file\<close> after \<open>path.read_text\<close>: the text of the file is split into lines, parsed,
  given durations and turned into rows.
\<close>

definition process_text :: "pylib \<Rightarrow> string \<Rightarrow> int \<Rightarrow> string \<Rightarrow> py_error + row list" where
  "process_text L text esc md =
     (let lines = splitlines text
      in case parse_log_lines L lines of
           Inl e \<Rightarrow> Inl e
         | Inr events0 \<Rightarrow>
             let truth = find_ground_truth lines;
                 events = compute_inference_duration events0;
                 rows = List.map_filter (event_row L truth esc md) events
             in Inr (if rows = [] then [no_result_row L truth esc md events] else rows))"

section \<open>The file system\<close>

text \<open>
  A directory tree: a regular file with its text as \<open>read_text(encoding="utf-8",
  errors="replace")\<close> decodes it, or a directory with its entries by name. A path is the list
  of names from the root.
\<close>

datatype fsnode = File string | Dir "(string \<times> fsnode) list"

fun lookup :: "fsnode \<Rightarrow> string list \<Rightarrow> fsnode option" where
  "lookup node [] = Some node"
| "lookup (File t) (n # p) = None"
| "lookup (Dir entries) (n # p) =
     (case map_of entries n of None \<Rightarrow> None | Some child \<Rightarrow> lookup child p)"

definition read_text :: "fsnode \<Rightarrow> string list \<Rightarrow> py_error + string" where
  "read_text fs_root p =
     (case lookup fs_root p of
        None \<Rightarrow> Inl FileNotFoundError
      | Some (Dir es) \<Rightarrow> Inl IsADirectoryError
      | Some (File t) \<Rightarrow> Inr t)"

definition process_file :: "pylib \<Rightarrow> fsnode \<Rightarrow> string list \<Rightarrow> int \<Rightarrow> string \<Rightarrow> py_error + row list" where
  "process_file L fs_root path esc md =
     (case read_text fs_root path of
        Inl e \<Rightarrow> Inl e
      | Inr text \<Rightarrow> process_text L text esc md)"

section \<open>\<open>main\<close>\<close>

record out_row = row +
  id_prueba :: int

text \<open>The row the handler of \<open>except Exception as e\<close> substitutes.\<close>

definition parse_error_row :: "pylib \<Rightarrow> int \<Rightarrow> py_error \<Rightarrow> row" where
  "parse_error_row L i e =
     \<lparr>timestamp = [], modo = ''MOBILE'', tipo_de_evento = ''parse_error'', escenario = i,
      distancia_m = [], iluminacion = [], objeto_verdad = [], objeto_predicho = [],
      confianza = [], t_total_ms = [], acierto = StrCell [],
      notas = ''parse error: '' @ exc_str L e\<rparr>"

text \<open>
  The local variables of \<open>main\<close> that the loops change. \<open>loop_f\<close> is the loop variable \<open>f\<close>:
  unbound (\<open>None\<close>) until the first iteration of a \<open>for f in ...\<close>, and left at its last
  value when such a loop ends.
\<close>

record main_state =
  id_counter :: int
  rows_to_write :: "out_row list"
  loop_f :: "string list option"

text \<open>
  \<^verbatim>\<open>
  for f in sorted(dirp.iterdir()):
      if not f.is_file():
          continue
      if not f.name.startswith("MOBILE"):
          continue
  \<close>
  The body of this loop consists of the two tests only: the \<open>try\<close> that follows is indented
  under \<open>for dirp\<close>, not under \<open>for f\<close>. Each iteration binds \<open>f\<close> and does nothing else.
\<close>

definition is_file :: "fsnode \<Rightarrow> bool" where
  "is_file node = (case node of File t \<Rightarrow> True | Dir es \<Rightarrow> False)"

definition file_loop_body :: "string list \<Rightarrow> main_state \<Rightarrow> string \<times> fsnode \<Rightarrow> main_state" where
  "file_loop_body dirp st entry =
     (let st' = st\<lparr>loop_f := Some (dirp @ [fst entry])\<rparr>
      in if \<not> is_file (snd entry) then st'
         else if \<not> startswith (fst entry) ''MOBILE'' then st'
         else st')"

text \<open>The loop \<open>for r in file_rows\<close>: each row gets the next identifier.\<close>

fun append_rows :: "main_state \<Rightarrow> row list \<Rightarrow> main_state" where
  "append_rows st [] = st"
| "append_rows st (r # rs) =
     append_rows
       (st\<lparr>rows_to_write := rows_to_write st @ [row.extend r \<lparr>id_prueba = id_counter st\<rparr>],
           id_counter := id_counter st + 1\<rparr>) rs"

text \<open>
  The body of \<open>for dirp in candidate_dirs\<close>, for scenario \<open>i\<close>: a directory that does not
  exist is skipped; otherwise the loop over its sorted entries runs, and then \<open>process_file\<close>
  is called once, on \<open>f\<close>. An unbound \<open>f\<close> raises \<open>UnboundLocalError\<close> inside the \<open>try\<close>.
\<close>

definition dir_loop_body :: "pylib \<Rightarrow> fsnode \<Rightarrow> int \<Rightarrow> main_state \<Rightarrow> string list \<Rightarrow> main_state" where
  "dir_loop_body L fs_root i st dirp =
     (case lookup fs_root dirp of
        Some (Dir entries) \<Rightarrow>
          let st1 = foldl (file_loop_body dirp) st (sort_key fst entries);
              file_rows =
                (case (case loop_f st1 of
                         None \<Rightarrow> Inl UnboundLocalError
                       | Some f \<Rightarrow> process_file L fs_root f i ''MOBILE'') of
                   Inr rows \<Rightarrow> rows
                 | Inl e \<Rightarrow> [parse_error_row L i e])
          in append_rows st1 file_rows
      | _ \<Rightarrow> st)"

definition candidate_dirs :: "int \<Rightarrow> string list list" where
  "candidate_dirs i =
     [[''escenario '' @ str_nat (nat i)], [''logs'', ''escenario '' @ str_nat (nat i)]]"

definition scenario_loop_body :: "pylib \<Rightarrow> fsnode \<Rightarrow> main_state \<Rightarrow> int \<Rightarrow> main_state" where
  "scenario_loop_body L fs_root st i = foldl (dir_loop_body L fs_root i) st (candidate_dirs i)"

text \<open>The rows accumulated when the loop over \<open>range(1, 5)\<close> ends.\<close>

definition collect_rows :: "pylib \<Rightarrow> fsnode \<Rightarrow> out_row list" where
  "collect_rows L fs_root =
     rows_to_write
       (foldl (scenario_loop_body L fs_root)
          \<lparr>id_counter = 1, rows_to_write = [], loop_f = None\<rparr> [1, 2, 3, 4])"

text \<open>
  \<open>df.sort_values(by=["timestamp_parsed"], na_position="last", kind="mergesort")\<close>: a stable
  sort of the rows that have an instant, followed by the rows that have none, in their
  order.
\<close>

definition sort_values :: "('a \<times> int option) list \<Rightarrow> 'a list" where
  "sort_values paired =
     map snd (sort_key fst (List.map_filter (\<lambda>(r, k). map_option (\<lambda>t. (t, r)) k) paired))
     @ map fst (filter (\<lambda>(r, k). k = None) paired)"

text \<open>\<open>df.reset_index(drop=True)\<close> and \<open>df["id_prueba"] = df.index + 1\<close>.\<close>

fun reindex :: "int \<Rightarrow> out_row list \<Rightarrow> out_row list" where
  "reindex n [] = []"
| "reindex n (r # rs) = r\<lparr>id_prueba := n + 1\<rparr> # reindex (n + 1) rs"

text \<open>
  The table \<open>main\<close> writes. A data frame built from no rows has no \<open>timestamp\<close> column, and
  only then: every row has the key.
\<close>

definition assemble :: "pylib \<Rightarrow> out_row list \<Rightarrow> py_error + out_row list" where
  "assemble L rows =
     (if rows = [] then Inr (reindex 0 rows)
      else
        case to_datetime L (map timestamp rows) of
          Inl e \<Rightarrow> Inl e
        | Inr parsed \<Rightarrow> Inr (reindex 0 (sort_values (zip rows parsed))))"

definition main :: "pylib \<Rightarrow> fsnode \<Rightarrow> py_error + out_row list" where
  "main L fs_root = assemble L (collect_rows L fs_root)"

section \<open>Example inputs\<close>

text \<open>Timestamps and events used in the examples below.\<close>

definition naive_at :: "int \<Rightarrow> datetime" where
  "naive_at us = \<lparr>wall_us = us, utcoffset_us = None\<rparr>"

definition aware_at :: "int \<Rightarrow> int \<Rightarrow> datetime" where
  "aware_at us off = \<lparr>wall_us = us, utcoffset_us = Some off\<rparr>"

definition event_at :: "datetime option \<Rightarrow> log_event" where
  "event_at t = \<lparr>ts = t, component = Some ''SCENE'', event = Some ''x'', details = [], raw = [],
     duration_ms = Absent, duration_hms = Absent\<rparr>"

fun sure_groups :: "regex \<Rightarrow> string set" where
  "sure_groups (Grp n r) = insert n (sure_groups r)"
| "sure_groups (Seq a b) = sure_groups a \<union> sure_groups b"
| "sure_groups r = {}"

definition groups_of :: "mstate \<Rightarrow> (string \<times> string) list" where
  "groups_of st = snd (snd st)"

definition example_lib :: pylib where
  "example_lib =
     \<lparr>fromisoformat =
        (\<lambda>s. if s = ''2025-12-29T18:29:25.428165'' then Inr (naive_at 0)
             else if s = ''2025-12-29T18:29:25.646733'' then Inr (naive_at 218568)
             else Inl ValueError),
      isoformat =
        (\<lambda>d. if d = naive_at 0 then ''2025-12-29T18:29:25.428165''
             else if d = naive_at 218568 then ''2025-12-29T18:29:25.646733''
             else ''0001-01-01T00:00:00''),
      to_datetime =
        (\<lambda>column. Inr (map (\<lambda>s. if s = ''2025-12-29T18:29:25.428165'' then Some 0
                                 else if s = ''2025-12-29T18:29:25.646733'' then Some 218568000
                                 else None) column)),
      exc_str = (\<lambda>e. ''error'')\<rparr>"

definition cup_text :: string where
  "cup_text = ''[2025-12-29T18:29:25.428165] SCENE: result - Cup\<newline>objeto_verdad: cup''"

definition cup_files :: fsnode where
  "cup_files = Dir [(''escenario 1'', Dir [(''MOBILE_cup.log'', File cup_text)])]"

definition noise_text :: string where
  "noise_text = ''[2025-12-29T18:29:25.428165] ESP32:  - capture\<newline>noise''"

definition noise_files :: fsnode where
  "noise_files = Dir [(''escenario 1'', Dir [(''MOBILE_n.log'', File noise_text)])]"

definition pair_text :: string where
  "pair_text = ''[2025-12-29T18:29:25.428165] SCENE: result - cup with confidence 0.900\<newline>[2025-12-29T18:29:25.646733] TTS: speaking - hello''"

definition pair_files :: fsnode where
  "pair_files = Dir [(''escenario 1'', Dir [(''MOBILE_p.log'', File pair_text)])]"

definition five_files :: fsnode where
  "five_files =
     Dir [(''escenario 1'',
           Dir [(''MOBILE_5.log'',
                 File ''[2025-12-29T18:29:25.428165] SCENE: result - cup with confidence 5'')])]"

definition key_order :: "'a \<times> int option \<Rightarrow> 'a \<times> int option \<Rightarrow> bool" where
  "key_order p q =
     (case (snd p, snd q) of
        (Some a, Some b) \<Rightarrow> a \<le> b
      | (None, Some b) \<Rightarrow> False
      | _ \<Rightarrow> True)"

definition sort_files :: fsnode where
  "sort_files =
     Dir [(''escenario 1'', Dir [(''MOBILE_a.log'', File ''[2025-12-29T18:29:25.646733] TTS: later'')]),
          (''escenario 2'', Dir [(''MOBILE_b.log'', File ''[2025-12-29T18:29:25.428165] ESP32: earlier'')]),
          (''logs'', Dir [(''escenario 3'', Dir [(''sub'', Dir [])])])]"

definition two_files :: fsnode where
  "two_files =
     Dir [(''escenario 1'',
           Dir [(''notes.txt'', File ''[2025-12-29T18:29:25.646733] TTS: note''),
                (''MOBILE_b.log'', File ''[2025-12-29T18:29:25.646733] TTS: second''),
                (''MOBILE_a.log'', File ''[2025-12-29T18:29:25.428165] ESP32: first'')])]"

section \<open>Notions used in the proofs about \<open>LINE_RE\<close>\<close>




section \<open>Properties of \<open>format_duration_ms\<close>\<close>

lemma str_nat_digit: "n < 10 \<Longrightarrow> str_nat n = [digit_char n]"
  by (simp add: str_nat.simps)

lemma str_nat_two: "10 \<le> n \<Longrightarrow> n < 100 \<Longrightarrow> str_nat n = [digit_char (n div 10), digit_char (n mod 10)]"
  by (subst str_nat.simps) (simp add: str_nat_digit)

lemma str_nat_three:
  "100 \<le> n \<Longrightarrow> n < 1000 \<Longrightarrow>
   str_nat n = [digit_char (n div 100), digit_char (n div 10 mod 10), digit_char (n mod 10)]"
  by (subst str_nat.simps) (simp add: str_nat_two div_mult2_eq [symmetric])

lemma str_nat_not_Nil: "str_nat n \<noteq> []"
  by (subst str_nat.simps) simp

lemma digit_char_0: "digit_char 0 = CHR ''0''"
  by code_simp

lemma digit_char_values:
  "digit_char 0 = CHR ''0''" "digit_char (Suc 0) = CHR ''1''" "digit_char 1 = CHR ''1''"
  "digit_char 2 = CHR ''2''" "digit_char 3 = CHR ''3''" "digit_char 4 = CHR ''4''"
  "digit_char 5 = CHR ''5''" "digit_char 6 = CHR ''6''" "digit_char 7 = CHR ''7''"
  "digit_char 8 = CHR ''8''" "digit_char 9 = CHR ''9''"
  by code_simp+

lemma fmt_0d_two:
  assumes "0 \<le> n" "n < 100"
  shows "fmt_0d 2 n = [digit_char (nat n div 10), digit_char (nat n mod 10)]"
proof (cases "n < 10")
  case True
  with assms have "str_nat (nat \<bar>n\<bar>) = [digit_char (nat n)]"
    by (simp add: str_nat_digit)
  with assms True show ?thesis
    by (simp add: fmt_0d_def digit_char_0)
next
  case False
  with assms have "str_nat (nat \<bar>n\<bar>) = [digit_char (nat n div 10), digit_char (nat n mod 10)]"
    by (simp add: str_nat_two)
  with assms show ?thesis
    by (simp add: fmt_0d_def)
qed

lemma fmt_0d_three:
  assumes "0 \<le> n" "n < 1000"
  shows "fmt_0d 3 n =
    [digit_char (nat n div 100), digit_char (nat n div 10 mod 10), digit_char (nat n mod 10)]"
proof -
  consider "n < 10" | "10 \<le> n" "n < 100" | "100 \<le> n"
    by linarith
  then show ?thesis
  proof cases
    case 1
    with assms have "str_nat (nat \<bar>n\<bar>) = [digit_char (nat n)]"
      by (simp add: str_nat_digit)
    with assms 1 show ?thesis
      by (simp add: fmt_0d_def digit_char_0 numeral_3_eq_3)
  next
    case 2
    with assms have "str_nat (nat \<bar>n\<bar>) = [digit_char (nat n div 10), digit_char (nat n mod 10)]"
      by (simp add: str_nat_two)
    with assms 2 show ?thesis
      by (simp add: fmt_0d_def digit_char_0)
  next
    case 3
    with assms have "str_nat (nat \<bar>n\<bar>) =
        [digit_char (nat n div 100), digit_char (nat n div 10 mod 10), digit_char (nat n mod 10)]"
      by (simp add: str_nat_three)
    with assms show ?thesis
      by (simp add: fmt_0d_def)
  qed
qed

lemma fmt_0d_negative: "n < 0 \<Longrightarrow> fmt_0d 2 n = CHR ''-'' # str_nat (nat (- n))"
proof -
  assume neg: "n < 0"
  have "1 \<le> length (str_nat (nat (- n)))"
    using str_nat_not_Nil [of "nat (- n)"] by (cases "str_nat (nat (- n))") simp_all
  with neg show ?thesis
    by (simp add: fmt_0d_def)
qed

text \<open>
  Claim C10. For \<open>0 \<le> ms < 360000000\<close> the result is exactly the twelve characters
  \<open>HH:MM:SS.mmm\<close>: two digits of hours, two of minutes and of seconds (each below 60) and three
  of milliseconds. For negative \<open>ms\<close> the floor division carries into the hours: the result
  starts with a minus sign followed by the digits of the (negative) hour count, while the
  minutes, seconds and milliseconds are still two, two and three digits in their normal
  ranges; so the result is not of the shape \<open>HH:MM:SS.mmm\<close>. In particular \<open>-1\<close> gives
  \<open>-1:59:59.999\<close>.
\<close>

theorem format_duration_ms_shape:
  "(0 \<le> ms \<and> ms < 360000000 \<longrightarrow>
      (\<exists>h m s k. int h = ms div 3600000 \<and> int m = ms div 60000 mod 60 \<and>
         int s = ms div 1000 mod 60 \<and> int k = ms mod 1000 \<and>
         h < 100 \<and> m < 60 \<and> s < 60 \<and> k < 1000 \<and>
         format_duration_ms (Some ms) =
           [digit_char (h div 10), digit_char (h mod 10), CHR '':'',
            digit_char (m div 10), digit_char (m mod 10), CHR '':'',
            digit_char (s div 10), digit_char (s mod 10), CHR ''.'',
            digit_char (k div 100), digit_char (k div 10 mod 10), digit_char (k mod 10)]))
   \<and> (ms < 0 \<longrightarrow>
      (\<exists>h m s k. - int h = ms div 3600000 \<and> int m = ms div 60000 mod 60 \<and>
         int s = ms div 1000 mod 60 \<and> int k = ms mod 1000 \<and>
         0 < h \<and> m < 60 \<and> s < 60 \<and> k < 1000 \<and>
         format_duration_ms (Some ms) =
           CHR ''-'' # str_nat h @
           [CHR '':'',
            digit_char (m div 10), digit_char (m mod 10), CHR '':'',
            digit_char (s div 10), digit_char (s mod 10), CHR ''.'',
            digit_char (k div 100), digit_char (k div 10 mod 10), digit_char (k mod 10)]))
   \<and> format_duration_ms (Some (- 1)) = ''-1:59:59.999''"
proof -
  have mins: "ms div 1000 div 60 = ms div 60000" for ms :: int
    by (simp add: zdiv_zmult2_eq [symmetric])
  have hours': "ms div 60000 div 60 = ms div 3600000" for ms :: int
    by (simp add: zdiv_zmult2_eq [symmetric])
  have bounds: "nat (x mod 60) < 60" "nat (x mod 1000) < 1000" for x :: int
    by (simp_all add: nat_less_iff)
  have fmt: "format_duration_ms (Some ms) =
      fmt_0d 2 (ms div 3600000) @ '':'' @ fmt_0d 2 (ms div 60000 mod 60) @ '':'' @
      fmt_0d 2 (ms div 1000 mod 60) @ ''.'' @ fmt_0d 3 (ms mod 1000)" for ms :: int
    by (simp add: format_duration_ms_def Let_def mins hours')
  have tail:
    "fmt_0d 2 (ms div 60000 mod 60) =
       [digit_char (nat (ms div 60000 mod 60) div 10), digit_char (nat (ms div 60000 mod 60) mod 10)]"
    "fmt_0d 2 (ms div 1000 mod 60) =
       [digit_char (nat (ms div 1000 mod 60) div 10), digit_char (nat (ms div 1000 mod 60) mod 10)]"
    "fmt_0d 3 (ms mod 1000) =
       [digit_char (nat (ms mod 1000) div 100), digit_char (nat (ms mod 1000) div 10 mod 10),
        digit_char (nat (ms mod 1000) mod 10)]"
    by (simp_all add: fmt_0d_two fmt_0d_three)
  have nonneg: "\<exists>h m s k. int h = ms div 3600000 \<and> int m = ms div 60000 mod 60 \<and>
         int s = ms div 1000 mod 60 \<and> int k = ms mod 1000 \<and>
         h < 100 \<and> m < 60 \<and> s < 60 \<and> k < 1000 \<and>
         format_duration_ms (Some ms) =
           [digit_char (h div 10), digit_char (h mod 10), CHR '':'',
            digit_char (m div 10), digit_char (m mod 10), CHR '':'',
            digit_char (s div 10), digit_char (s mod 10), CHR ''.'',
            digit_char (k div 100), digit_char (k div 10 mod 10), digit_char (k mod 10)]"
    if range: "0 \<le> ms \<and> ms < 360000000"
  proof -
    from range have "ms div 3600000 \<le> 359999999 div 3600000"
      by (intro zdiv_mono1) simp_all
    with range have h: "0 \<le> ms div 3600000" "ms div 3600000 < 100"
      by (simp_all add: pos_imp_zdiv_nonneg_iff)
    show ?thesis
      apply (rule exI [of _ "nat (ms div 3600000)"])
      apply (rule exI [of _ "nat (ms div 60000 mod 60)"])
      apply (rule exI [of _ "nat (ms div 1000 mod 60)"])
      apply (rule exI [of _ "nat (ms mod 1000)"])
      using h by (simp add: fmt tail fmt_0d_two bounds nat_less_iff)
  qed
  have negative: "\<exists>h m s k. - int h = ms div 3600000 \<and> int m = ms div 60000 mod 60 \<and>
         int s = ms div 1000 mod 60 \<and> int k = ms mod 1000 \<and>
         0 < h \<and> m < 60 \<and> s < 60 \<and> k < 1000 \<and>
         format_duration_ms (Some ms) =
           CHR ''-'' # str_nat h @
           [CHR '':'',
            digit_char (m div 10), digit_char (m mod 10), CHR '':'',
            digit_char (s div 10), digit_char (s mod 10), CHR ''.'',
            digit_char (k div 100), digit_char (k div 10 mod 10), digit_char (k mod 10)]"
    if neg: "ms < 0"
  proof -
    from neg have h: "ms div 3600000 < 0"
      by (simp add: pos_imp_zdiv_neg_iff)
    show ?thesis
      apply (rule exI [of _ "nat (- (ms div 3600000))"])
      apply (rule exI [of _ "nat (ms div 60000 mod 60)"])
      apply (rule exI [of _ "nat (ms div 1000 mod 60)"])
      apply (rule exI [of _ "nat (ms mod 1000)"])
      using h by (simp add: fmt tail fmt_0d_negative bounds)
  qed
  have example: "format_duration_ms (Some (- 1)) = ''-1:59:59.999''"
    by (simp add: fmt fmt_0d_negative fmt_0d_two fmt_0d_three str_nat_digit digit_char_values)
  from nonneg negative example show ?thesis
    by blast
qed

theorem format_duration_ms_shape_witness:
  "format_duration_ms (Some 218568) = ''00:03:38.568'' \<and>
   format_duration_ms (Some (- 3600001)) = ''-2:59:59.999''"
proof -
  have pos: "(0::int) \<le> 218568 \<and> (218568::int) < 360000000"
    by simp
  have neg: "(- 3600001 :: int) < 0"
    by simp
  from format_duration_ms_shape [of 218568] pos
  obtain h m s k where a: "int h = 218568 div 3600000" "int m = 218568 div 60000 mod 60"
      "int s = 218568 div 1000 mod 60" "int k = 218568 mod 1000"
      "format_duration_ms (Some 218568) =
           [digit_char (h div 10), digit_char (h mod 10), CHR '':'',
            digit_char (m div 10), digit_char (m mod 10), CHR '':'',
            digit_char (s div 10), digit_char (s mod 10), CHR ''.'',
            digit_char (k div 100), digit_char (k div 10 mod 10), digit_char (k mod 10)]"
    by blast
  from a(1-4) have "h = 0" "m = 3" "s = 38" "k = 568"
    by simp_all
  with a(5) have first: "format_duration_ms (Some 218568) = ''00:03:38.568''"
    by (simp add: digit_char_values)
  from format_duration_ms_shape [of "- 3600001"] neg
  obtain h m s k where b: "- int h = (- 3600001) div 3600000" "int m = (- 3600001) div 60000 mod 60"
      "int s = (- 3600001) div 1000 mod 60" "int k = (- 3600001) mod 1000"
      "format_duration_ms (Some (- 3600001)) =
           CHR ''-'' # str_nat h @
           [CHR '':'',
            digit_char (m div 10), digit_char (m mod 10), CHR '':'',
            digit_char (s div 10), digit_char (s mod 10), CHR ''.'',
            digit_char (k div 100), digit_char (k div 10 mod 10), digit_char (k mod 10)]"
    by blast
  from b(1-4) have "h = 2" "m = 59" "s = 59" "k = 999"
    by simp_all
  with b(5) have "format_duration_ms (Some (- 3600001)) = ''-2:59:59.999''"
    by (simp add: digit_char_values str_nat_digit)
  with first show ?thesis
    by simp
qed

section \<open>Floating-point evaluation\<close>

lemma to_double_eval:
  assumes "n \<noteq> 0"
    and "bit_length \<bar>n\<bar> - bit_length d = k"
    and "(if d * 2 ^ nat k \<le> \<bar>n\<bar> * 2 ^ nat (- k) then k else k - 1) = e0"
    and "max (e0 - 52) (- 1074) = e"
    and "round_half_even (\<bar>n\<bar> * 2 ^ nat (- e)) (d * 2 ^ nat e) = m"
    and "\<not> 2 ^ 1024 \<le> m * 2 ^ nat e"
    and "sgn n * m = r"
  shows "to_double n d = Finite r e"
  unfolding to_double_def Let_def
  by (simp only: assms if_False if_True)

lemma total_seconds_1001000: "total_seconds 1001000 = Finite 4508103226997866 (- 52)"
  unfolding total_seconds_def
  by (rule to_double_eval [where k = 0 and ?e0.0 = 0 and m = 4508103226997866])
     (simp_all add: bit_length.simps round_half_even_def Let_def)

lemma times_1000_1001000:
  "times_1000 (Finite 4508103226997866 (- 52)) = Finite 8804889115230207 (- 43)"
  unfolding times_1000.simps
  by (rule to_double_eval [where k = 9 and ?e0.0 = 9 and m = 8804889115230207])
     (simp_all add: bit_length.simps round_half_even_def Let_def)

lemma float_ms_1001000: "py_int (times_1000 (total_seconds 1001000)) = Inr 1000"
  by (simp only: total_seconds_1001000 times_1000_1001000) simp

section \<open>Exactness of the conversion to milliseconds\<close>

text \<open>
  \<open>int((ts_cur - ts_prev).total_seconds() * 1000)\<close> rounds twice, in the division by
  \<open>10 ** 6\<close> and in the product. For a difference of \<open>us\<close> microseconds below \<open>2 ^ 52\<close>
  the two errors together stay below a thousandth of a millisecond, so the result is the
  truncated number of milliseconds as soon as \<open>us\<close> is not a multiple of 1000.
\<close>

lemma round_half_even_nonneg: "0 \<le> a \<Longrightarrow> 0 < b \<Longrightarrow> 0 \<le> round_half_even a b"
  by (simp add: round_half_even_def Let_def pos_imp_zdiv_nonneg_iff)

lemma bit_length_bounds:
  "0 < n \<Longrightarrow> \<exists>b. bit_length n = int (Suc b) \<and> 2 ^ b \<le> n \<and> n < 2 ^ Suc b"
proof (induction n rule: bit_length.induct)
  case (1 n)
  show ?case
  proof (cases "n div 2 \<le> 0")
    case True
    with "1.prems" have "n = 1" by linarith
    then have "bit_length n = int (Suc 0) \<and> 2 ^ 0 \<le> n \<and> n < 2 ^ Suc 0"
      by (simp add: bit_length.simps)
    then show ?thesis by blast
  next
    case False
    with "1.prems" "1.IH" obtain b where b: "bit_length (n div 2) = int (Suc b)"
      "2 ^ b \<le> n div 2" "n div 2 < 2 ^ Suc b"
      by auto
    have "bit_length n = int (Suc (Suc b))"
      using "1.prems" b(1) by (subst bit_length.simps) simp
    moreover have "2 ^ Suc b \<le> n"
      using b(2) by simp
    moreover have "n < 2 ^ Suc (Suc b)"
      using b(3) by simp
    ultimately show ?thesis by blast
  qed
qed

lemma round_half_even_near:
  assumes "0 < b"
  shows "2 * (round_half_even a b * b) \<le> 2 * a + b" "2 * a \<le> 2 * (round_half_even a b * b) + b"
proof -
  define q where "q = a div b"
  define r where "r = a mod b"
  have a: "a = q * b + r"
    by (simp add: q_def r_def)
  have r: "0 \<le> r" "r < b"
    using assms by (simp_all add: r_def)
  have m: "round_half_even a b = q \<and> 2 * r \<le> b \<or> round_half_even a b = q + 1 \<and> b \<le> 2 * r"
    by (auto simp: round_half_even_def Let_def q_def [symmetric] r_def [symmetric])
  from m a r show "2 * (round_half_even a b * b) \<le> 2 * a + b"
    by (auto simp: algebra_simps)
  from m a r show "2 * a \<le> 2 * (round_half_even a b * b) + b"
    by (auto simp: algebra_simps)
qed

lemma e0_bounds:
  assumes "0 < n" "0 < d"
    and "k = bit_length n - bit_length d"
    and "e0 = (if d * 2 ^ nat k \<le> n * 2 ^ nat (- k) then k else k - 1)"
  shows "d * 2 ^ nat e0 \<le> n * 2 ^ nat (- e0) \<and> n * 2 ^ nat (- e0) < 2 * (d * 2 ^ nat e0)"
proof -
  from assms(1) obtain bn where bn: "bit_length n = int (Suc bn)" "2 ^ bn \<le> n" "n < 2 ^ Suc bn"
    using bit_length_bounds by blast
  from assms(2) obtain bd where bd: "bit_length d = int (Suc bd)" "2 ^ bd \<le> d" "d < 2 ^ Suc bd"
    using bit_length_bounds by blast
  have k: "k = int bn - int bd"
    using assms(3) bn(1) bd(1) by simp
  show ?thesis
  proof (cases "bd \<le> bn")
    case True
    define j where "j = bn - bd"
    have bnj: "bn = bd + j" using True by (simp add: j_def)
    have kj: "nat k = j" "nat (- k) = 0" "k = int j"
      using k bnj by simp_all
    show ?thesis
    proof (cases "d * 2 ^ j \<le> n")
      case le: True
      then have e0: "e0 = int j" using assms(4) kj by simp
      have "n < 2 * (2 ^ bd * 2 ^ j)"
        using bn(3) by (simp add: bnj power_add)
      also have "\<dots> \<le> 2 * (d * 2 ^ j)"
        using bd(2) by (intro mult_left_mono mult_right_mono) simp_all
      finally show ?thesis
        using le e0 by simp
    next
      case gt: False
      then have e0: "e0 = int j - 1" using assms(4) kj by simp
      show ?thesis
      proof (cases j)
        case 0
        have "d < 2 * 2 ^ bn"
          using bd(3) bnj 0 by simp
        also have "\<dots> \<le> 2 * n"
          using bn(2) by simp
        finally show ?thesis
          using gt e0 0 by simp
      next
        case (Suc j')
        have "d * 2 ^ j' < 2 ^ Suc bd * 2 ^ j'"
          using bd(3) by (intro mult_strict_right_mono) simp_all
        also have "\<dots> = 2 ^ bn"
          by (simp add: bnj Suc power_add)
        also have "\<dots> \<le> n" by (rule bn(2))
        finally show ?thesis
          using gt e0 Suc by simp
      qed
    qed
  next
    case False
    define j where "j = bd - bn"
    have bdj: "bd = bn + j" using False by (simp add: j_def)
    have kj: "nat k = 0" "nat (- k) = j" "k = - int j"
      using k bdj by simp_all
    show ?thesis
    proof (cases "d \<le> n * 2 ^ j")
      case le: True
      then have e0: "e0 = - int j" using assms(4) kj by simp
      have "n * 2 ^ j < 2 ^ Suc bn * 2 ^ j"
        using bn(3) by (intro mult_strict_right_mono) simp_all
      also have "\<dots> = 2 * 2 ^ bd"
        by (simp add: bdj power_add)
      also have "\<dots> \<le> 2 * d"
        using bd(2) by simp
      finally show ?thesis
        using le e0 by simp
    next
      case gt: False
      then have e0: "e0 = - int (Suc j)" using assms(4) kj by simp
      have "d < 2 * (2 ^ bn * 2 ^ j)"
        using bd(3) by (simp add: bdj power_add)
      also have "\<dots> \<le> 2 * (n * 2 ^ j)"
        using bn(2) by (intro mult_left_mono mult_right_mono) simp_all
      finally have "d < 2 * (n * 2 ^ j)" .
      moreover have "nat (- e0) = Suc j" "nat e0 = 0"
        using e0 by simp_all
      ultimately show ?thesis
        using gt by simp
    qed
  qed
qed

lemma round_half_even_le:
  assumes "0 < b" and "a < c * b"
  shows "round_half_even a b \<le> c"
proof (rule ccontr)
  assume "\<not> round_half_even a b \<le> c"
  then have "c + 1 \<le> round_half_even a b" by simp
  then have "(c + 1) * b \<le> round_half_even a b * b"
    using assms(1) by (intro mult_right_mono) simp_all
  with round_half_even_near(1) [OF assms(1), of a] assms
  show False by (simp add: algebra_simps)
qed

lemma round_half_even_ge:
  assumes "0 < b" and "c * b \<le> a"
  shows "c \<le> round_half_even a b"
proof (rule ccontr)
  assume "\<not> c \<le> round_half_even a b"
  then have "round_half_even a b + 1 \<le> c" by simp
  then have "(round_half_even a b + 1) * b \<le> c * b"
    using assms(1) by (intro mult_right_mono) simp_all
  with round_half_even_near(2) [OF assms(1), of a] assms
  show False by (simp add: algebra_simps)
qed

lemma to_double_normal:
  assumes "n \<noteq> 0" "0 < d" "\<bar>n\<bar> < 2 ^ 53 * d" "d < 2 ^ 1022 * \<bar>n\<bar>"
  shows "\<exists>s. to_double n d = Finite (sgn n * round_half_even (\<bar>n\<bar> * 2 ^ s) d) (- int s) \<and>
             2 ^ 52 * d \<le> \<bar>n\<bar> * 2 ^ s \<and> \<bar>n\<bar> * 2 ^ s < 2 ^ 53 * d"
proof -
  define a where "a = \<bar>n\<bar>"
  have a: "0 < a" using assms(1) by (simp add: a_def)
  define k where "k = bit_length a - bit_length d"
  define e0 where "e0 = (if d * 2 ^ nat k \<le> a * 2 ^ nat (- k) then k else k - 1)"
  have lo: "d * 2 ^ nat e0 \<le> a * 2 ^ nat (- e0)" and hi: "a * 2 ^ nat (- e0) < 2 * (d * 2 ^ nat e0)"
    using e0_bounds [OF a assms(2) k_def e0_def] by simp_all
  have up: "e0 \<le> 52"
  proof (rule ccontr)
    assume "\<not> e0 \<le> 52"
    then have e: "53 \<le> nat e0" "nat (- e0) = 0" by simp_all
    have "(2::int) ^ 53 \<le> 2 ^ nat e0"
      using e(1) by (intro power_increasing) simp_all
    then have "d * 2 ^ 53 \<le> d * 2 ^ nat e0"
      using assms(2) by (intro mult_left_mono) simp_all
    with lo e(2) have "d * 2 ^ 53 \<le> a" by simp
    with assms(3) show False by (simp add: a_def)
  qed
  have down: "- 1022 \<le> e0"
  proof (rule ccontr)
    assume "\<not> - 1022 \<le> e0"
    then have e: "1023 \<le> nat (- e0)" "nat e0 = 0" by simp_all
    have "(2::int) ^ 1023 \<le> 2 ^ nat (- e0)"
      using e(1) by (intro power_increasing) simp_all
    then have "a * 2 ^ 1023 \<le> a * 2 ^ nat (- e0)"
      using a by (intro mult_left_mono) simp_all
    with hi e(2) have "a * 2 ^ 1023 < 2 * d" by simp
    with assms(4) show False by (simp add: a_def)
  qed
  define s where "s = nat (52 - e0)"
  have e: "max (e0 - 52) (- 1074) = - int s"
    using up down by (simp add: s_def)
  have bounds: "2 ^ 52 * d \<le> a * 2 ^ s \<and> a * 2 ^ s < 2 ^ 53 * d"
  proof (cases "0 \<le> e0")
    case True
    define j where "j = nat e0"
    have j: "nat e0 = j" "nat (- e0) = 0" "52 = s + j"
      using True up by (simp_all add: j_def s_def)
    have p: "(2::int) ^ 52 = 2 ^ s * 2 ^ j" "(2::int) ^ 53 = 2 * (2 ^ s * 2 ^ j)"
      by (simp_all only: power_add [symmetric] j(3) [symmetric]) simp_all
    from lo j have "d * 2 ^ j \<le> a" by simp
    then have "d * 2 ^ j * 2 ^ s \<le> a * 2 ^ s"
      by (intro mult_right_mono) simp_all
    moreover from hi j have "a < 2 * (d * 2 ^ j)" by simp
    then have "a * 2 ^ s < 2 * (d * 2 ^ j) * 2 ^ s"
      by (intro mult_strict_right_mono) simp_all
    ultimately show ?thesis
      unfolding p by (simp add: mult_ac)
  next
    case False
    define j where "j = nat (- e0)"
    have j: "nat e0 = 0" "nat (- e0) = j" "s = 52 + j"
      using False by (simp_all add: j_def s_def)
    from lo j have "d \<le> a * 2 ^ j" by simp
    then have "2 ^ 52 * d \<le> 2 ^ 52 * (a * 2 ^ j)"
      by (intro mult_left_mono) simp_all
    moreover from hi j have "a * 2 ^ j < 2 * d" by simp
    then have "2 ^ 52 * (a * 2 ^ j) < 2 ^ 52 * (2 * d)"
      by (intro mult_strict_left_mono) simp_all
    ultimately show ?thesis
      unfolding j(3) power_add by (simp add: mult_ac)
  qed
  define m where "m = round_half_even (a * 2 ^ s) d"
  have "m \<le> 2 ^ 53"
    unfolding m_def using assms(2) bounds by (intro round_half_even_le) simp_all
  then have small: "\<not> 2 ^ 1024 \<le> m * 2 ^ nat (- int s)"
    by simp
  have "to_double n d = Finite (sgn n * m) (- int s)"
  proof (rule to_double_eval [where k = k and ?e0.0 = e0 and m = m])
    show "n \<noteq> 0" by (rule assms(1))
    show "bit_length \<bar>n\<bar> - bit_length d = k" by (simp add: k_def a_def)
    show "(if d * 2 ^ nat k \<le> \<bar>n\<bar> * 2 ^ nat (- k) then k else k - 1) = e0"
      by (simp only: e0_def a_def)
    show "max (e0 - 52) (- 1074) = - int s" by (rule e)
    show "round_half_even (\<bar>n\<bar> * 2 ^ nat (- (- int s))) (d * 2 ^ nat (- int s)) = m"
      by (simp add: m_def a_def)
    show "\<not> 2 ^ 1024 \<le> m * 2 ^ nat (- int s)" by (rule small)
    show "sgn n * m = sgn n * m" by (rule refl)
  qed
  with bounds show ?thesis
    unfolding m_def a_def by blast
qed

lemma float_ms_whole:
  assumes small: "\<bar>us\<bar> < 2 ^ 52" and frac: "us mod 1000 \<noteq> 0"
  shows "py_int (times_1000 (total_seconds us)) = Inr (sgn us * (\<bar>us\<bar> div 1000))"
proof -
  define a where "a = \<bar>us\<bar>"
  from frac have nz: "us \<noteq> 0" by auto
  then have a: "0 < a" by (simp add: a_def)
  have "\<not> 1000 dvd us" using frac by (simp add: dvd_eq_mod_eq_0)
  then have "\<not> 1000 dvd a" by (simp add: a_def)
  then have fa: "a mod 1000 \<noteq> 0" by (simp add: dvd_eq_mod_eq_0)
  define q where "q = a div 1000"
  define r where "r = a mod 1000"
  have aq: "a = 1000 * q + r" by (simp add: q_def r_def)
  have r: "1 \<le> r" "r \<le> 999"
    using fa pos_mod_sign [of 1000 a] pos_mod_bound [of 1000 a] by (simp_all add: r_def)
  have q: "0 \<le> q" using a by (simp add: q_def pos_imp_zdiv_nonneg_iff)

  have "\<exists>s. to_double us 1000000 = Finite (sgn us * round_half_even (\<bar>us\<bar> * 2 ^ s) 1000000) (- int s) \<and>
             2 ^ 52 * 1000000 \<le> \<bar>us\<bar> * 2 ^ s \<and> \<bar>us\<bar> * 2 ^ s < 2 ^ 53 * 1000000"
    using nz small by (intro to_double_normal) simp_all
  then obtain s where first: "to_double us 1000000 = Finite (sgn us * round_half_even (a * 2 ^ s) 1000000) (- int s)"
    and b1: "2 ^ 52 * 1000000 \<le> a * 2 ^ s" "a * 2 ^ s < 2 ^ 53 * 1000000"
    unfolding a_def by blast
  define A :: int where "A = 2 ^ s"
  define m1 where "m1 = round_half_even (a * A) 1000000"
  have A0: "0 < A" by (simp add: A_def)
  have A: "1048576 \<le> A"
  proof (rule ccontr)
    assume "\<not> 1048576 \<le> A"
    then have "(2::int) ^ s < 2 ^ 20" by (simp add: A_def)
    then have "s < 20" by (simp only: power_strict_increasing_iff)
    then have "s \<le> 19" by simp
    then have "(2::int) ^ s \<le> 2 ^ 19" by (intro power_increasing) simp_all
    then have "a * 2 ^ s \<le> a * 2 ^ 19"
      using a by (intro mult_left_mono) simp_all
    with b1(1) small show False by (simp add: a_def)
  qed
  have "1 * A \<le> a * A" using a A0 by (intro mult_right_mono) simp_all
  with b1(2) [folded A_def] have Aup: "A < 2 ^ 53 * 1000000" by simp
  have m1_lo: "2 ^ 52 \<le> m1"
    unfolding m1_def using b1(1) by (intro round_half_even_ge) (simp_all add: A_def)
  have m1_hi: "m1 \<le> 2 ^ 53"
    unfolding m1_def using b1(2) by (intro round_half_even_le) (simp_all add: A_def)
  have n1: "2 * (m1 * 1000000) \<le> 2 * (a * A) + 1000000" "2 * (a * A) \<le> 2 * (m1 * 1000000) + 1000000"
    unfolding m1_def by (rule round_half_even_near; simp)+

  define n where "n = sgn us * m1 * 1000"
  have n: "n \<noteq> 0" "\<bar>n\<bar> = m1 * 1000" "sgn n = sgn us"
    using nz m1_lo by (cases "us < 0"; simp add: n_def abs_mult sgn_mult)+
  have prod: "times_1000 (Finite (sgn us * m1) (- int s)) = to_double n A"
    by (simp add: n_def A_def)
  have "\<exists>t. to_double n A = Finite (sgn n * round_half_even (\<bar>n\<bar> * 2 ^ t) A) (- int t) \<and>
             2 ^ 52 * A \<le> \<bar>n\<bar> * 2 ^ t \<and> \<bar>n\<bar> * 2 ^ t < 2 ^ 53 * A"
  proof (intro to_double_normal)
    show "n \<noteq> 0" by (rule n(1))
    show "0 < A" by (rule A0)
    show "\<bar>n\<bar> < 2 ^ 53 * A" using m1_hi A by (simp add: n(2))
    show "A < 2 ^ 1022 * \<bar>n\<bar>" using m1_lo Aup by (simp add: n(2))
  qed
  then obtain t where second: "to_double n A = Finite (sgn us * round_half_even (m1 * 1000 * 2 ^ t) A) (- int t)"
    and b2: "2 ^ 52 * A \<le> m1 * 1000 * 2 ^ t" "m1 * 1000 * 2 ^ t < 2 ^ 53 * A"
    unfolding n(2,3) by blast
  define B :: int where "B = 2 ^ t"
  define m2 where "m2 = round_half_even (m1 * 1000 * B) A"
  have B0: "0 < B" by (simp add: B_def)
  have B: "1024 \<le> B"
  proof (rule ccontr)
    assume "\<not> 1024 \<le> B"
    then have "(2::int) ^ t < 2 ^ 10" by (simp add: B_def)
    then have "t < 10" by (simp only: power_strict_increasing_iff)
    then have "t \<le> 9" by simp
    then have "(2::int) ^ t \<le> 2 ^ 9" by (intro power_increasing) simp_all
    then have "B \<le> 512" by (simp add: B_def)
    then have "(m1 * 1000) * B \<le> (m1 * 1000) * 512"
      using m1_lo by (intro mult_left_mono) simp_all
    with b2(1) m1_hi A show False by (simp add: B_def)
  qed
  have n2: "2 * (m2 * A) \<le> 2 * (m1 * 1000 * B) + A" "2 * (m1 * 1000 * B) \<le> 2 * (m2 * A) + A"
    unfolding m2_def by (rule round_half_even_near; rule A0)+
  have m2: "0 \<le> m2"
    unfolding m2_def using m1_lo A0 B0 by (intro round_half_even_nonneg) simp_all

  define X where "X = A * B"
  define W where "W = q * X"
  define V where "V = r * X"
  define Y where "Y = m1 * B"
  define Z where "Z = m2 * A"
  have X: "1024 * A \<le> X" "1048576 * B \<le> X"
    using A B A0 B0 by (simp_all add: X_def mult.commute [of A B] mult_right_mono)
  have X0: "0 < X" using A0 B0 by (simp add: X_def)
  have V: "X \<le> V" "V \<le> 999 * X"
    using r X0 by (simp_all add: V_def)
  have aX: "a * A * B = 1000 * W + V"
    by (simp add: aq W_def V_def X_def algebra_simps)
  have e1: "(2 * (a * A) + 1000000) * B = 2 * (a * A * B) + 1000000 * B"
    and e2: "(2 * (m1 * 1000000)) * B = 2000000 * Y"
    and e3: "(2 * (a * A)) * B = 2 * (a * A * B)"
    and e4: "(2 * (m1 * 1000000) + 1000000) * B = 2000000 * Y + 1000000 * B"
    by (simp_all add: Y_def algebra_simps)
  have "(2 * (m1 * 1000000)) * B \<le> (2 * (a * A) + 1000000) * B"
    using n1(1) B0 by (intro mult_right_mono) simp_all
  then have f1: "2000000 * Y \<le> 2 * (1000 * W + V) + 1000000 * B"
    by (simp only: e1 e2 aX)
  have "(2 * (a * A)) * B \<le> (2 * (m1 * 1000000) + 1000000) * B"
    using n1(2) B0 by (intro mult_right_mono) simp_all
  then have f2: "2 * (1000 * W + V) \<le> 2000000 * Y + 1000000 * B"
    by (simp only: e3 e4 aX)
  have g1: "2 * Z \<le> 2000 * Y + A" and g2: "2000 * Y \<le> 2 * Z + A"
    using n2 by (simp_all add: Z_def Y_def algebra_simps)
  have low: "q * B \<le> m2"
  proof (rule ccontr)
    assume "\<not> q * B \<le> m2"
    then have "m2 + 1 \<le> q * B" by simp
    then have "(m2 + 1) * A \<le> q * B * A"
      using A0 by (intro mult_right_mono) simp_all
    then have "Z + A \<le> W"
      by (simp add: Z_def W_def X_def algebra_simps)
    then have "2000 * Z + 2000 * A \<le> 2000 * W" by simp
    moreover from g2 have "2000000 * Y \<le> 2000 * Z + 1000 * A" by simp
    moreover from f2 have "2000 * W + 2 * V \<le> 2000000 * Y + 1000000 * B" by simp
    ultimately have "2 * V + 1000 * A \<le> 1000000 * B" by simp
    moreover from V(1) X(2) have "2097152 * B \<le> 2 * V" by simp
    ultimately show False using A0 B0 by simp
  qed
  have high: "m2 < (q + 1) * B"
  proof (rule ccontr)
    assume "\<not> m2 < (q + 1) * B"
    then have "(q + 1) * B \<le> m2" by simp
    then have "(q + 1) * B * A \<le> m2 * A"
      using A0 by (intro mult_right_mono) simp_all
    then have "W + X \<le> Z"
      by (simp add: Z_def W_def X_def algebra_simps)
    then have "2000 * W + 2000 * X \<le> 2000 * Z" by simp
    moreover from g1 have "2000 * Z \<le> 2000000 * Y + 1000 * A" by simp
    moreover from f1 have "2000000 * Y \<le> 2000 * W + 2 * V + 1000000 * B" by simp
    ultimately have "2000 * X \<le> 2 * V + 1000 * A + 1000000 * B" by simp
    with V(2) have "2 * X \<le> 1000 * A + 1000000 * B" by simp
    moreover from X have "1024 * A + 1048576 * B \<le> 2 * X" by simp
    ultimately show False using A0 B0 by simp
  qed
  have "m2 div B = q"
  proof (rule int_div_pos_eq [where r = "m2 - B * q"])
    show "m2 = B * q + (m2 - B * q)" by simp
    show "0 \<le> m2 - B * q" using low by (simp add: mult.commute)
    show "m2 - B * q < B" using high by (simp add: algebra_simps)
  qed
  have t: "0 < t"
    using B by (cases t) (simp_all add: B_def)
  have "py_int (times_1000 (total_seconds us)) = py_int (Finite (sgn us * m2) (- int t))"
    unfolding total_seconds_def first m1_def [symmetric] A_def [symmetric] prod second
      B_def [symmetric] m2_def [symmetric] ..
  also have "\<dots> = Inr (sgn (sgn us * m2) * (\<bar>sgn us * m2\<bar> div B))"
    using t by (simp add: B_def)
  also have "sgn (sgn us * m2) * (\<bar>sgn us * m2\<bar> div B) = sgn us * (m2 div B)"
    using m2 nz by (cases "m2 = 0") (simp_all add: sgn_mult abs_mult)
  finally show ?thesis
    by (simp add: \<open>m2 div B = q\<close> q_def a_def)
qed

lemma float_ms_zero: "py_int (times_1000 (total_seconds 0)) = Inr 0"
  by (simp add: total_seconds_def to_double_def)

lemma float_ms_trunc:
  assumes "\<bar>us\<bar> < 2 ^ 52" and "us = 0 \<or> us mod 1000 \<noteq> 0"
  shows "py_int (times_1000 (total_seconds us)) = Inr (sgn us * (\<bar>us\<bar> div 1000))"
proof (cases "us = 0")
  case True
  then show ?thesis by (simp only: float_ms_zero) simp
next
  case False
  with assms show ?thesis by (intro float_ms_whole) simp_all
qed

section \<open>Properties of \<open>compute_inference_duration\<close>\<close>

lemma pop_durations_idem [simp]: "pop_durations (pop_durations ev) = pop_durations ev"
  by (simp add: pop_durations_def)

lemma ts_pop_durations [simp]: "ts (pop_durations ev) = ts ev"
  by (simp add: pop_durations_def)

lemma pop_first_duration [simp]: "pop_durations (first_duration ev) = pop_durations ev"
  by (simp add: pop_durations_def first_duration_def)

lemma ts_first_duration [simp]: "ts (first_duration ev) = ts ev"
  by (simp add: first_duration_def)

lemma pop_next_duration [simp]: "pop_durations (next_duration prev cur) = pop_durations cur"
  by (simp add: pop_durations_def next_duration_def split: option.splits sum.splits)

lemma ts_next_duration [simp]: "ts (next_duration prev cur) = ts cur"
  by (simp add: next_duration_def split: option.splits sum.splits)

lemma next_duration_ts_cong: "ts p = ts p' \<Longrightarrow> next_duration p c = next_duration p' c"
  by (simp add: next_duration_def)

lemma next_duration_pop: "next_duration p (pop_durations c) = next_duration p c"
  by (simp add: next_duration_def pop_durations_def split: option.splits sum.splits)

lemma first_duration_pop: "first_duration (pop_durations c) = first_duration c"
  by (simp add: first_duration_def pop_durations_def)

lemma length_durations_after [simp]: "length (durations_after prev rest) = length rest"
  by (induction rest arbitrary: prev) (simp_all add: Let_def)

lemma map_pop_durations_after: "map pop_durations (durations_after prev rest) = map pop_durations rest"
  by (induction rest arbitrary: prev) (simp_all add: Let_def)

lemma durations_after_nth:
  "i < length rest \<Longrightarrow>
   durations_after prev rest ! i = next_duration (if i = 0 then prev else rest ! (i - 1)) (rest ! i)"
proof (induction rest arbitrary: prev i)
  case Nil
  then show ?case by simp
next
  case (Cons cur rest)
  show ?case
  proof (cases i)
    case 0
    then show ?thesis by (simp add: Let_def)
  next
    case (Suc j)
    with Cons.prems have j: "j < length rest" by simp
    have "durations_after (next_duration prev cur) rest ! j =
          next_duration (if j = 0 then next_duration prev cur else rest ! (j - 1)) (rest ! j)"
      using Cons.IH [OF j] .
    also have "\<dots> = next_duration (if j = 0 then cur else rest ! (j - 1)) (rest ! j)"
      by (rule next_duration_ts_cong) simp
    finally show ?thesis
      using Suc by (cases j) (simp_all add: Let_def)
  qed
qed

lemma map_pop_compute:
  "map pop_durations (compute_inference_duration events) = map pop_durations events"
  by (cases events) (simp_all add: compute_inference_duration_def Let_def map_pop_durations_after)

text \<open>
  Claim C9. \<open>compute_inference_duration\<close> is idempotent: run a second time on the events
  it has left, it leaves every event as it was after the first run, so the fields
  \<open>duration_ms\<close> and \<open>duration_hms\<close> of every event are identical.
\<close>

theorem compute_inference_duration_idempotent:
  "compute_inference_duration (compute_inference_duration events) = compute_inference_duration events"
proof -
  have unf: "compute_inference_duration xs =
        (case map pop_durations xs of
           [] \<Rightarrow> []
         | first # rest \<Rightarrow> (let first' = first_duration first in first' # durations_after first' rest))"
    for xs
    by (simp only: compute_inference_duration_def)
  have "compute_inference_duration (compute_inference_duration events) =
        (case map pop_durations (compute_inference_duration events) of
           [] \<Rightarrow> []
         | first # rest \<Rightarrow> (let first' = first_duration first in first' # durations_after first' rest))"
    by (rule unf)
  also have "\<dots> = (case map pop_durations events of
           [] \<Rightarrow> []
         | first # rest \<Rightarrow> (let first' = first_duration first in first' # durations_after first' rest))"
    by (simp only: map_pop_compute)
  also have "\<dots> = compute_inference_duration events"
    by (rule unf [symmetric])
  finally show ?thesis .
qed

lemma length_compute [simp]: "length (compute_inference_duration events) = length events"
  by (cases events) (simp_all add: compute_inference_duration_def Let_def)

lemma compute_nth:
  "i < length events \<Longrightarrow>
   compute_inference_duration events ! i =
     (if i = 0 then first_duration (events ! 0) else next_duration (events ! (i - 1)) (events ! i))"
proof (cases events)
  case Nil
  assume "i < length events"
  with Nil show ?thesis by simp
next
  case (Cons first rest)
  assume i: "i < length events"
  show ?thesis
  proof (cases i)
    case 0
    with Cons show ?thesis
      by (simp add: compute_inference_duration_def Let_def first_duration_pop)
  next
    case (Suc j)
    with i Cons have j: "j < length rest" by simp
    have "compute_inference_duration events ! i =
          durations_after (first_duration first) (map pop_durations rest) ! j"
      using Cons Suc by (simp add: compute_inference_duration_def Let_def first_duration_pop)
    also have "\<dots> = next_duration (if j = 0 then first_duration first else map pop_durations rest ! (j - 1))
                        (map pop_durations rest ! j)"
      using j by (simp add: durations_after_nth)
    also have "\<dots> = next_duration (if j = 0 then first else rest ! (j - 1)) (rest ! j)"
    proof -
      have "next_duration (if j = 0 then first_duration first else map pop_durations rest ! (j - 1))
                        (map pop_durations rest ! j)
           = next_duration (if j = 0 then first_duration first else map pop_durations rest ! (j - 1)) (rest ! j)"
        using j by (simp add: next_duration_pop)
      also have "\<dots> = next_duration (if j = 0 then first else rest ! (j - 1)) (rest ! j)"
        using j by (intro next_duration_ts_cong) (cases j; simp)
      finally show ?thesis .
    qed
    finally show ?thesis
      using Cons Suc by (cases j) simp_all
  qed
qed

lemma duration_ms_first:
  "duration_ms (first_duration ev) = (if ts ev = None then PyNone else Present 0)"
  by (simp add: first_duration_def)

lemma duration_hms_first:
  "duration_hms (first_duration ev) =
     (if ts ev = None then PyNone else Present (format_duration_ms (Some 0)))"
  by (simp add: first_duration_def)

lemma duration_hms_next:
  "duration_hms (next_duration prev cur) =
     (case duration_ms (next_duration prev cur) of
        Present v \<Rightarrow> Present (format_duration_ms (Some v))
      | _ \<Rightarrow> PyNone)"
  by (simp add: next_duration_def split: option.splits sum.splits)

lemma duration_ms_next:
  "duration_ms (next_duration prev cur) =
     (case (ts prev, ts cur) of
        (Some p, Some c) \<Rightarrow>
          (case (utcoffset_us p, utcoffset_us c) of
             (None, None) \<Rightarrow>
               (case py_int (times_1000 (total_seconds (wall_us c - wall_us p))) of
                  Inr v \<Rightarrow> Present v
                | Inl e \<Rightarrow> PyNone)
           | (Some op, Some oc) \<Rightarrow>
               (case py_int (times_1000 (total_seconds ((wall_us c - oc) - (wall_us p - op)))) of
                  Inr v \<Rightarrow> Present v
                | Inl e \<Rightarrow> PyNone)
           | _ \<Rightarrow> PyNone)
      | _ \<Rightarrow> PyNone)"
  by (simp add: next_duration_def delta_ms_def datetime_sub_def split: option.splits sum.splits)

lemma duration_ms_next_None:
  "ts prev = None \<or> ts cur = None \<Longrightarrow> duration_ms (next_duration prev cur) = PyNone"
  by (auto simp: next_duration_def split: option.splits)

lemma duration_ms_next_mixed:
  assumes "ts prev = Some p" "ts cur = Some c"
    and "(utcoffset_us p = None) \<noteq> (utcoffset_us c = None)"
  shows "duration_ms (next_duration prev cur) = PyNone"
  using assms by (auto simp: next_duration_def delta_ms_def datetime_sub_def split: option.splits)

lemma duration_ms_next_naive:
  assumes "ts prev = Some p" "ts cur = Some c"
    and "utcoffset_us p = None" "utcoffset_us c = None"
    and "\<bar>wall_us c - wall_us p\<bar> < 2 ^ 52"
    and "wall_us c - wall_us p = 0 \<or> (wall_us c - wall_us p) mod 1000 \<noteq> 0"
  shows "duration_ms (next_duration prev cur) =
     Present (sgn (wall_us c - wall_us p) * (\<bar>wall_us c - wall_us p\<bar> div 1000))"
proof -
  have "delta_ms c p = Inr (sgn (wall_us c - wall_us p) * (\<bar>wall_us c - wall_us p\<bar> div 1000))"
    unfolding delta_ms_def datetime_sub_def
    by (simp only: assms(3,4) prod.case option.case sum.case float_ms_trunc [OF assms(5,6)])
  with assms(1,2) show ?thesis
    by (simp add: next_duration_def)
qed

lemma duration_ms_next_aware:
  assumes "ts prev = Some p" "ts cur = Some c"
    and "utcoffset_us p = Some op" "utcoffset_us c = Some oc"
    and "\<bar>(wall_us c - oc) - (wall_us p - op)\<bar> < 2 ^ 52"
    and "(wall_us c - oc) - (wall_us p - op) = 0 \<or> ((wall_us c - oc) - (wall_us p - op)) mod 1000 \<noteq> 0"
  shows "duration_ms (next_duration prev cur) =
     Present (sgn ((wall_us c - oc) - (wall_us p - op)) * (\<bar>(wall_us c - oc) - (wall_us p - op)\<bar> div 1000))"
proof -
  have "delta_ms c p =
      Inr (sgn ((wall_us c - oc) - (wall_us p - op)) * (\<bar>(wall_us c - oc) - (wall_us p - op)\<bar> div 1000))"
    unfolding delta_ms_def datetime_sub_def
    by (simp only: assms(3,4) prod.case option.case sum.case float_ms_trunc [OF assms(5,6)])
  with assms(1,2) show ?thesis
    by (simp add: next_duration_def)
qed

text \<open>
  Claim C3, as amended. After \<open>compute_inference_duration\<close> the list has the same length
  and the same timestamps. The first event's \<open>duration_ms\<close> is 0 when its timestamp is
  present, else null. For \<open>i > 0\<close>, in the order of the list: when either timestamp is absent,
  \<open>duration_ms\<close> is null; when one timestamp is naive and the other aware the subtraction
  raises and the handler stores null; when both are naive, or both are aware, less than
  \<open>2 ^ 52\<close> microseconds (some 142 years) apart, and their difference is zero or not a whole
  number of milliseconds, \<open>duration_ms\<close> is that difference in milliseconds, truncated
  towards zero, sign kept. Nothing is stated about a difference that is a non-zero whole
  number of milliseconds. \<open>duration_hms\<close> is the formatted \<open>duration_ms\<close>, or null with
  it.
\<close>

theorem compute_inference_duration_values:
  "length (compute_inference_duration events) = length events \<and>
   (\<forall>i. i < length events \<longrightarrow>
      ts (compute_inference_duration events ! i) = ts (events ! i) \<and>
      (i = 0 \<longrightarrow>
         duration_ms (compute_inference_duration events ! i) =
           (if ts (events ! 0) = None then PyNone else Present 0)) \<and>
      (0 < i \<longrightarrow>
         (case (ts (events ! (i - 1)), ts (events ! i)) of
            (Some p, Some c) \<Rightarrow>
              (case (utcoffset_us p, utcoffset_us c) of
                 (None, None) \<Rightarrow>
                   \<bar>wall_us c - wall_us p\<bar> < 2 ^ 52 \<and>
                   (wall_us c - wall_us p = 0 \<or> (wall_us c - wall_us p) mod 1000 \<noteq> 0) \<longrightarrow>
                   duration_ms (compute_inference_duration events ! i) =
                     Present (sgn (wall_us c - wall_us p) * (\<bar>wall_us c - wall_us p\<bar> div 1000))
               | (Some op, Some oc) \<Rightarrow>
                   \<bar>(wall_us c - oc) - (wall_us p - op)\<bar> < 2 ^ 52 \<and>
                   ((wall_us c - oc) - (wall_us p - op) = 0 \<or>
                    ((wall_us c - oc) - (wall_us p - op)) mod 1000 \<noteq> 0) \<longrightarrow>
                   duration_ms (compute_inference_duration events ! i) =
                     Present (sgn ((wall_us c - oc) - (wall_us p - op)) *
                              (\<bar>(wall_us c - oc) - (wall_us p - op)\<bar> div 1000))
               | _ \<Rightarrow> duration_ms (compute_inference_duration events ! i) = PyNone)
          | _ \<Rightarrow> duration_ms (compute_inference_duration events ! i) = PyNone)) \<and>
      duration_hms (compute_inference_duration events ! i) =
        (case duration_ms (compute_inference_duration events ! i) of
           Present v \<Rightarrow> Present (format_duration_ms (Some v))
         | _ \<Rightarrow> PyNone))"
proof (intro conjI allI impI)
  show "length (compute_inference_duration events) = length events"
    by simp
next
  fix i assume "i < length events"
  then show "ts (compute_inference_duration events ! i) = ts (events ! i)"
    by (simp add: compute_nth)
next
  fix i assume "i < length events" "i = 0"
  then show "duration_ms (compute_inference_duration events ! i) =
      (if ts (events ! 0) = None then PyNone else Present 0)"
    by (simp add: compute_nth duration_ms_first)
next
  fix i assume i: "i < length events" "0 < i"
  then have nth: "compute_inference_duration events ! i = next_duration (events ! (i - 1)) (events ! i)"
    by (simp add: compute_nth)
  show "case (ts (events ! (i - 1)), ts (events ! i)) of
            (Some p, Some c) \<Rightarrow>
              (case (utcoffset_us p, utcoffset_us c) of
                 (None, None) \<Rightarrow>
                   \<bar>wall_us c - wall_us p\<bar> < 2 ^ 52 \<and>
                   (wall_us c - wall_us p = 0 \<or> (wall_us c - wall_us p) mod 1000 \<noteq> 0) \<longrightarrow>
                   duration_ms (compute_inference_duration events ! i) =
                     Present (sgn (wall_us c - wall_us p) * (\<bar>wall_us c - wall_us p\<bar> div 1000))
               | (Some op, Some oc) \<Rightarrow>
                   \<bar>(wall_us c - oc) - (wall_us p - op)\<bar> < 2 ^ 52 \<and>
                   ((wall_us c - oc) - (wall_us p - op) = 0 \<or>
                    ((wall_us c - oc) - (wall_us p - op)) mod 1000 \<noteq> 0) \<longrightarrow>
                   duration_ms (compute_inference_duration events ! i) =
                     Present (sgn ((wall_us c - oc) - (wall_us p - op)) *
                              (\<bar>(wall_us c - oc) - (wall_us p - op)\<bar> div 1000))
               | _ \<Rightarrow> duration_ms (compute_inference_duration events ! i) = PyNone)
          | _ \<Rightarrow> duration_ms (compute_inference_duration events ! i) = PyNone"
  proof (cases "ts (events ! (i - 1))")
    case None
    then show ?thesis
      by (simp add: nth duration_ms_next_None)
  next
    case p: (Some p)
    show ?thesis
    proof (cases "ts (events ! i)")
      case None
      with p show ?thesis
        by (simp add: nth duration_ms_next_None)
    next
      case c: (Some c)
      show ?thesis
      proof (cases "utcoffset_us p")
        case pn: None
        show ?thesis
        proof (cases "utcoffset_us c")
          case None
          with p c pn show ?thesis
            by (simp only: nth prod.case option.case) (intro impI duration_ms_next_naive; simp)
        next
          case (Some oc)
          with p c pn duration_ms_next_mixed [OF p c] show ?thesis
            by (simp add: nth)
        qed
      next
        case po: (Some op)
        show ?thesis
        proof (cases "utcoffset_us c")
          case None
          with p c po duration_ms_next_mixed [OF p c] show ?thesis
            by (simp add: nth)
        next
          case (Some oc)
          with p c po show ?thesis
            by (simp only: nth prod.case option.case) (intro impI duration_ms_next_aware; simp)
        qed
      qed
    qed
  qed
next
  fix i assume i: "i < length events"
  show "duration_hms (compute_inference_duration events ! i) =
        (case duration_ms (compute_inference_duration events ! i) of
           Present v \<Rightarrow> Present (format_duration_ms (Some v))
         | _ \<Rightarrow> PyNone)"
  proof (cases "i = 0")
    case True
    with i show ?thesis
      by (simp add: compute_nth duration_ms_first duration_hms_first)
  next
    case False
    with i show ?thesis
      by (simp only: compute_nth if_False duration_hms_next)
  qed
qed

theorem compute_inference_duration_values_witness:
  "duration_ms (compute_inference_duration
       [event_at (Some (naive_at 0)), event_at (Some (naive_at 218568)), event_at None] ! 0) = Present 0 \<and>
   duration_ms (compute_inference_duration
       [event_at (Some (naive_at 0)), event_at (Some (naive_at 218568)), event_at None] ! 1) = Present 218 \<and>
   duration_ms (compute_inference_duration
       [event_at (Some (naive_at 0)), event_at (Some (naive_at 218568)), event_at None] ! 2) = PyNone \<and>
   duration_ms (compute_inference_duration
       [event_at (Some (aware_at 1500 0)), event_at (Some (aware_at 0 0))] ! 1) = Present (- 1)"
proof -
  let ?evs = "[event_at (Some (naive_at 0)), event_at (Some (naive_at 218568)), event_at None]"
  let ?down = "[event_at (Some (aware_at 1500 0)), event_at (Some (aware_at 0 0))]"
  have zero: "(0::nat) < length ?evs" and one: "(1::nat) < length ?evs" and two: "(2::nat) < length ?evs"
    and one': "(1::nat) < length ?down"
    by simp_all
  from compute_inference_duration_values [of ?evs, THEN conjunct2, rule_format, OF zero]
  have "duration_ms (compute_inference_duration ?evs ! 0) = Present 0"
    by (simp add: event_at_def)
  moreover
  from compute_inference_duration_values [of ?evs, THEN conjunct2, rule_format, OF one]
  have "duration_ms (compute_inference_duration ?evs ! 1) = Present 218"
    by (simp add: event_at_def naive_at_def)
  moreover
  from compute_inference_duration_values [of ?evs, THEN conjunct2, rule_format, OF two]
  have "duration_ms (compute_inference_duration ?evs ! 2) = PyNone"
    by (simp add: event_at_def naive_at_def)
  moreover
  from compute_inference_duration_values [of ?down, THEN conjunct2, rule_format, OF one']
  have "duration_ms (compute_inference_duration ?down ! 1) = Present (- 1)"
    by (simp add: event_at_def aware_at_def)
  ultimately show ?thesis
    by (intro conjI)
qed

text \<open>
  The claim as stated fails: both timestamps are present, the first naive and the second
  aware, and \<open>duration_ms\<close> of the second event is null.
\<close>

theorem compute_inference_duration_mixed_offsets:
  "ts ([event_at (Some (naive_at 0)), event_at (Some (aware_at 1000000 0))] ! 0) \<noteq> None \<and>
   ts ([event_at (Some (naive_at 0)), event_at (Some (aware_at 1000000 0))] ! 1) \<noteq> None \<and>
   duration_ms (compute_inference_duration
       [event_at (Some (naive_at 0)), event_at (Some (aware_at 1000000 0))] ! 1) = PyNone"
  by (simp add: compute_nth duration_ms_next event_at_def naive_at_def aware_at_def del: times_1000.simps)

text \<open>
  A difference that is a whole number of milliseconds is not always converted exactly: two
  naive timestamps 1.001 s apart give 1000, because \<open>1.001 * 1000\<close> is
  \<open>1000.9999999999999\<close> in floating point. The statement above leaves such differences open.
\<close>

lemma compute_inference_duration_float_truncation:
  "duration_ms (compute_inference_duration
       [event_at (Some (naive_at 0)), event_at (Some (naive_at 1001000))] ! 1) = Present 1000"
  by (simp add: compute_nth duration_ms_next event_at_def naive_at_def float_ms_1001000 del: times_1000.simps)

section \<open>Properties of \<open>parse_log_lines\<close>\<close>

lemma one_char_groups: "st' \<in> set (one_char p st) \<Longrightarrow> groups_of st' = groups_of st"
  by (cases "(p, st)" rule: one_char.cases) (auto simp: groups_of_def split: if_splits)

lemma star_greedy_groups: "st' \<in> set (star_greedy p st) \<Longrightarrow> groups_of st' = groups_of st"
  by (induction p st rule: star_greedy.induct) (auto simp: groups_of_def split: if_splits)

lemma star_lazy_groups: "st' \<in> set (star_lazy p st) \<Longrightarrow> groups_of st' = groups_of st"
  by (induction p st rule: star_lazy.induct) (auto simp: groups_of_def split: if_splits)

lemma close_group_groups: "groups_of (close_group n st x) = (n, take (fst x - fst st) (fst (snd st))) # groups_of x"
  by (cases st; cases x) (simp add: groups_of_def)

lemma matches_groups:
  "st' \<in> set (matches r st) \<Longrightarrow>
   fst ` set (groups_of st) \<union> sure_groups r \<subseteq> fst ` set (groups_of st')"
proof (induction r arbitrary: st st')
  case (Lit c)
  then show ?case by (simp add: one_char_groups)
next
  case (LitI c)
  then show ?case by (simp add: one_char_groups)
next
  case (Cls p)
  then show ?case by (simp add: one_char_groups)
next
  case (StarG p)
  then show ?case by (simp add: star_greedy_groups)
next
  case (StarL p)
  then show ?case by (simp add: star_lazy_groups)
next
  case (Seq a b)
  from Seq.prems obtain mid where mid: "mid \<in> set (matches a st)" "st' \<in> set (matches b mid)"
    by auto
  from Seq.IH(1) [OF mid(1)] Seq.IH(2) [OF mid(2)] show ?case
    by (simp only: sure_groups.simps) blast
next
  case (Opt r)
  from Opt.prems have "st' \<in> set (matches r st) \<or> st' = st"
    by auto
  then show ?case
  proof
    assume "st' \<in> set (matches r st)"
    from Opt.IH [OF this] show ?thesis
      by (simp only: sure_groups.simps) blast
  next
    assume "st' = st"
    then show ?thesis by simp
  qed
next
  case (Grp n r)
  from Grp.prems obtain x where x: "x \<in> set (matches r st)" "st' = close_group n st x"
    by auto
  have "fst ` set (groups_of st') = insert n (fst ` set (groups_of x))"
    by (simp add: x(2) close_group_groups)
  with Grp.IH [OF x(1)] show ?case
    by (simp only: sure_groups.simps) blast
next
  case Bol
  then show ?case by (cases st) (auto simp: groups_of_def split: if_splits)
next
  case Eol
  then show ?case by (cases st) (auto simp: groups_of_def split: if_splits)
qed

lemma match_at_groups:
  assumes "match_at r i s = Some m"
  shows "sure_groups r \<subseteq> fst ` set (m_groups m)"
proof -
  from assms obtain j s' g rest where st: "matches r (i, s, []) = (j, s', g) # rest" and m: "m_groups m = g"
    by (auto simp: match_at_def split: list.splits)
  then have "(j, s', g) \<in> set (matches r (i, s, []))"
    by simp
  from matches_groups [OF this] m show ?thesis
    by (simp add: groups_of_def)
qed

lemma sure_groups_LINE_RE: "sure_groups LINE_RE = {''ts'', ''component'', ''event''}"
  by (auto simp: LINE_RE_def PlusG_def PlusL_def)

lemma LINE_RE_groups:
  assumes "re_match LINE_RE line = Some m"
  shows "\<exists>t c e. group m ''ts'' = Some t \<and> group m ''component'' = Some c \<and> group m ''event'' = Some e"
proof -
  from assms have sub: "{''ts'', ''component'', ''event''} \<subseteq> fst ` set (m_groups m)"
    using match_at_groups [of LINE_RE 0 line m] by (simp add: re_match_def sure_groups_LINE_RE)
  have "map_of (m_groups m) n \<noteq> None" if "n \<in> fst ` set (m_groups m)" for n
    using that by (simp add: map_of_eq_None_iff)
  with sub show ?thesis
    by (auto simp: group_def)
qed

lemma matched_event_Inr:
  assumes "re_match LINE_RE line = Some m"
  shows "matched_event L line m =
     Inr \<lparr>ts = (case group m ''ts'' of
                  None \<Rightarrow> None
                | Some t \<Rightarrow> (case fromisoformat L t of Inr d \<Rightarrow> Some d | Inl e \<Rightarrow> None)),
          component = map_option strip (group m ''component''),
          event = map_option strip (group m ''event''),
          details = strip (case group m ''details'' of None \<Rightarrow> [] | Some d \<Rightarrow> d),
          raw = line, duration_ms = Absent, duration_hms = Absent\<rparr>"
proof -
  from LINE_RE_groups [OF assms] obtain t c e where
    "group m ''ts'' = Some t" "group m ''component'' = Some c" "group m ''event'' = Some e"
    by blast
  then show ?thesis
    by (simp add: matched_event_def)
qed

text \<open>
  Claim C7. \<open>parse_log_lines\<close> returns normally on every list of lines: the result is
  \<open>Inr\<close> of one event per line that is not blank, in order. A line that \<open>LINE_RE\<close> does
  not match gives the degraded record that keeps the stripped line as \<open>raw\<close> and as
  \<open>details\<close>. A line that matches gives an event with the component, event and details
  populated from the groups, and with \<open>ts\<close> null when \<open>fromisoformat\<close> raises on the
  bracketed text. The groups \<open>ts\<close>, \<open>component\<close> and \<open>event\<close> take part in every match, so
  no call of \<open>strip\<close> on a missing group can raise.
\<close>

theorem parse_log_lines_total:
  "parse_log_lines L lines =
     Inr (map (\<lambda>line. case re_match LINE_RE line of
                 None \<Rightarrow>
                   \<lparr>ts = None, component = None, event = None, details = line, raw = line,
                    duration_ms = Absent, duration_hms = Absent\<rparr>
               | Some m \<Rightarrow>
                   \<lparr>ts = (case group m ''ts'' of
                            None \<Rightarrow> None
                          | Some t \<Rightarrow> (case fromisoformat L t of Inr d \<Rightarrow> Some d | Inl e \<Rightarrow> None)),
                    component = map_option strip (group m ''component''),
                    event = map_option strip (group m ''event''),
                    details = strip (case group m ''details'' of None \<Rightarrow> [] | Some d \<Rightarrow> d),
                    raw = line, duration_ms = Absent, duration_hms = Absent\<rparr>)
            (filter (\<lambda>line. line \<noteq> []) (map strip lines)))
   \<and> (\<forall>line m. re_match LINE_RE line = Some m \<longrightarrow>
          group m ''ts'' \<noteq> None \<and> group m ''component'' \<noteq> None \<and> group m ''event'' \<noteq> None)"
proof
  show "parse_log_lines L lines =
     Inr (map (\<lambda>line. case re_match LINE_RE line of
                 None \<Rightarrow>
                   \<lparr>ts = None, component = None, event = None, details = line, raw = line,
                    duration_ms = Absent, duration_hms = Absent\<rparr>
               | Some m \<Rightarrow>
                   \<lparr>ts = (case group m ''ts'' of
                            None \<Rightarrow> None
                          | Some t \<Rightarrow> (case fromisoformat L t of Inr d \<Rightarrow> Some d | Inl e \<Rightarrow> None)),
                    component = map_option strip (group m ''component''),
                    event = map_option strip (group m ''event''),
                    details = strip (case group m ''details'' of None \<Rightarrow> [] | Some d \<Rightarrow> d),
                    raw = line, duration_ms = Absent, duration_hms = Absent\<rparr>)
            (filter (\<lambda>line. line \<noteq> []) (map strip lines)))"
  proof (induction lines)
    case Nil
    show ?case by simp
  next
    case (Cons line0 lines)
    show ?case
    proof (cases "strip line0 = []")
      case True
      with Cons show ?thesis by simp
    next
      case False
      show ?thesis
      proof (cases "re_match LINE_RE (strip line0)")
        case None
        with False Cons show ?thesis by (simp add: Let_def)
      next
        case (Some m)
        with False Cons matched_event_Inr [OF Some, of L] show ?thesis
          by (simp add: Let_def)
      qed
    qed
  qed
next
  show "\<forall>line m. re_match LINE_RE line = Some m \<longrightarrow>
          group m ''ts'' \<noteq> None \<and> group m ''component'' \<noteq> None \<and> group m ''event'' \<noteq> None"
    using LINE_RE_groups by fastforce
qed

theorem parse_log_lines_total_witness:
  "parse_log_lines example_lib
     [''[yesterday] TTS: converted output to speech'', ''   '', ''free text'',
      ''[2025-12-29T18:29:25.428165] ESP32: capture - starting''] =
   Inr [\<lparr>ts = None, component = Some ''TTS'', event = Some ''converted output to speech'',
         details = [], raw = ''[yesterday] TTS: converted output to speech'',
         duration_ms = Absent, duration_hms = Absent\<rparr>,
        \<lparr>ts = None, component = None, event = None, details = ''free text'', raw = ''free text'',
         duration_ms = Absent, duration_hms = Absent\<rparr>,
        \<lparr>ts = Some (naive_at 0), component = Some ''ESP32'', event = Some ''capture'',
         details = ''starting'', raw = ''[2025-12-29T18:29:25.428165] ESP32: capture - starting'',
         duration_ms = Absent, duration_hms = Absent\<rparr>]"
proof -
  let ?lines = "[''[yesterday] TTS: converted output to speech'', ''   '', ''free text'',
      ''[2025-12-29T18:29:25.428165] ESP32: capture - starting'']"
  let ?F = "\<lambda>line. case re_match LINE_RE line of
                 None \<Rightarrow>
                   \<lparr>ts = None, component = None, event = None, details = line, raw = line,
                    duration_ms = Absent, duration_hms = Absent\<rparr>
               | Some m \<Rightarrow>
                   \<lparr>ts = (case group m ''ts'' of
                            None \<Rightarrow> None
                          | Some t \<Rightarrow> (case fromisoformat example_lib t of Inr d \<Rightarrow> Some d | Inl e \<Rightarrow> None)),
                    component = map_option strip (group m ''component''),
                    event = map_option strip (group m ''event''),
                    details = strip (case group m ''details'' of None \<Rightarrow> [] | Some d \<Rightarrow> d),
                    raw = line, duration_ms = Absent, duration_hms = Absent\<rparr>"
  have run: "parse_log_lines example_lib ?lines =
      Inr (map ?F (filter (\<lambda>line. line \<noteq> []) (map strip ?lines)))"
    by (rule parse_log_lines_total [THEN conjunct1])
  have "map ?F (filter (\<lambda>line. line \<noteq> []) (map strip ?lines)) =
     [\<lparr>ts = None, component = Some ''TTS'', event = Some ''converted output to speech'',
         details = [], raw = ''[yesterday] TTS: converted output to speech'',
         duration_ms = Absent, duration_hms = Absent\<rparr>,
        \<lparr>ts = None, component = None, event = None, details = ''free text'', raw = ''free text'',
         duration_ms = Absent, duration_hms = Absent\<rparr>,
        \<lparr>ts = Some (naive_at 0), component = Some ''ESP32'', event = Some ''capture'',
         details = ''starting'', raw = ''[2025-12-29T18:29:25.428165] ESP32: capture - starting'',
         duration_ms = Absent, duration_hms = Absent\<rparr>]"
    by code_simp
  with run show ?thesis
    by (simp only:)
qed

section \<open>Properties of \<open>process_file\<close>\<close>

lemma in_set_map_filter: "y \<in> set (List.map_filter f xs) \<longleftrightarrow> (\<exists>x \<in> set xs. f x = Some y)"
  by (induction xs) (auto split: option.splits)

lemma map_filter_Nil_iff: "List.map_filter f xs = [] \<longleftrightarrow> (\<forall>x \<in> set xs. f x = None)"
  by (induction xs) (auto split: option.splits)

lemma event_pop_durations [simp]: "event (pop_durations ev) = event ev"
  by (simp add: pop_durations_def)

lemma map_event_compute: "map event (compute_inference_duration events) = map event events"
proof -
  have "map event (compute_inference_duration events) =
        map event (map pop_durations (compute_inference_duration events))"
    by simp
  also have "\<dots> = map event (map pop_durations events)"
    by (simp only: map_pop_compute)
  finally show ?thesis by simp
qed

lemma event_row_None: "event_row L truth esc md ev = None \<longleftrightarrow> event ev = None \<or> event ev = Some []"
  by (cases "event ev") (simp_all add: event_row_def Let_def)

lemma event_row_Some:
  assumes "event_row L truth esc md ev = Some r"
  obtains name where "event ev = Some name" "name \<noteq> []"
    "r = \<lparr>timestamp = (case ts ev of None \<Rightarrow> [] | Some t \<Rightarrow> isoformat L t),
          modo = md,
          tipo_de_evento = strip name,
          escenario = esc,
          distancia_m = [],
          iluminacion = ''LED'',
          objeto_verdad = (case truth of None \<Rightarrow> [] | Some t \<Rightarrow> t),
          objeto_predicho = extract_label (details ev),
          confianza = (case extract_conf (details ev) of None \<Rightarrow> [] | Some x \<Rightarrow> fmt_3f x),
          t_total_ms = (case dict_get (duration_hms ev) of None \<Rightarrow> [] | Some h \<Rightarrow> h),
          acierto =
            (if (case truth of None \<Rightarrow> [] | Some t \<Rightarrow> t) \<noteq> []
             then IntCell (if (case truth of None \<Rightarrow> [] | Some t \<Rightarrow> t) \<noteq> [] \<and>
                              extract_label (details ev) \<noteq> [] \<and>
                              lower (case truth of None \<Rightarrow> [] | Some t \<Rightarrow> t) =
                                lower (extract_label (details ev))
                           then 1 else 0)
             else StrCell []),
          notas = (if contains ''error'' (lower (details ev)) then details ev else [])\<rparr>"
proof (cases "event ev")
  case None
  with assms show ?thesis by (simp add: event_row_def)
next
  case (Some name)
  show ?thesis
  proof (cases "name = []")
    case True
    with Some assms show ?thesis by (simp add: event_row_def)
  next
    case False
    with Some assms that [of name] show ?thesis
      by (simp add: event_row_def Let_def)
  qed
qed

lemma event_row_acierto:
  assumes "event_row L truth esc md ev = Some r"
  shows "objeto_verdad r = (case truth of None \<Rightarrow> [] | Some t \<Rightarrow> t)"
    and "acierto r = IntCell 1 \<longleftrightarrow>
           objeto_verdad r \<noteq> [] \<and> objeto_predicho r \<noteq> [] \<and> lower (objeto_verdad r) = lower (objeto_predicho r)"
    and "objeto_verdad r = [] \<Longrightarrow> acierto r = StrCell []"
    and "acierto r = IntCell 1 \<or> acierto r = IntCell 0 \<or> acierto r = StrCell []"
proof -
  from assms obtain name where r: 
    "r = \<lparr>timestamp = (case ts ev of None \<Rightarrow> [] | Some t \<Rightarrow> isoformat L t),
          modo = md,
          tipo_de_evento = strip name,
          escenario = esc,
          distancia_m = [],
          iluminacion = ''LED'',
          objeto_verdad = (case truth of None \<Rightarrow> [] | Some t \<Rightarrow> t),
          objeto_predicho = extract_label (details ev),
          confianza = (case extract_conf (details ev) of None \<Rightarrow> [] | Some x \<Rightarrow> fmt_3f x),
          t_total_ms = (case dict_get (duration_hms ev) of None \<Rightarrow> [] | Some h \<Rightarrow> h),
          acierto =
            (if (case truth of None \<Rightarrow> [] | Some t \<Rightarrow> t) \<noteq> []
             then IntCell (if (case truth of None \<Rightarrow> [] | Some t \<Rightarrow> t) \<noteq> [] \<and>
                              extract_label (details ev) \<noteq> [] \<and>
                              lower (case truth of None \<Rightarrow> [] | Some t \<Rightarrow> t) =
                                lower (extract_label (details ev))
                           then 1 else 0)
             else StrCell []),
          notas = (if contains ''error'' (lower (details ev)) then details ev else [])\<rparr>"
    by (rule event_row_Some)
  define tr where "tr = (case truth of None \<Rightarrow> [] | Some t \<Rightarrow> t)"
  define lb where "lb = extract_label (details ev)"
  have v: "objeto_verdad r = tr" and p: "objeto_predicho r = lb"
    and a: "acierto r = (if tr \<noteq> [] then IntCell (if tr \<noteq> [] \<and> lb \<noteq> [] \<and> lower tr = lower lb then 1 else 0)
                         else StrCell [])"
    by (simp_all add: r tr_def lb_def)
  show "objeto_verdad r = (case truth of None \<Rightarrow> [] | Some t \<Rightarrow> t)"
    by (simp add: v tr_def)
  show "acierto r = IntCell 1 \<longleftrightarrow>
           objeto_verdad r \<noteq> [] \<and> objeto_predicho r \<noteq> [] \<and> lower (objeto_verdad r) = lower (objeto_predicho r)"
    by (simp add: v p a)
  show "acierto r = StrCell []" if "objeto_verdad r = []"
    using that by (simp add: v a)
  show "acierto r = IntCell 1 \<or> acierto r = IntCell 0 \<or> acierto r = StrCell []"
    by (simp add: a)
qed

lemma no_result_row_acierto:
  "objeto_verdad (no_result_row L truth esc md events) = (case truth of None \<Rightarrow> [] | Some t \<Rightarrow> t)"
  "acierto (no_result_row L truth esc md events) = StrCell []"
  "objeto_predicho (no_result_row L truth esc md events) = []"
  by (simp_all add: no_result_row_def)

lemma parse_log_lines_Inr: "\<exists>events. parse_log_lines L lines = Inr events"
proof (induction lines)
  case Nil
  show ?case by simp
next
  case (Cons line0 lines)
  then obtain events where ev: "parse_log_lines L lines = Inr events" by blast
  show ?case
  proof (cases "strip line0 = []")
    case True
    with ev show ?thesis by simp
  next
    case False
    show ?thesis
    proof (cases "re_match LINE_RE (strip line0)")
      case None
      with False ev show ?thesis by (simp add: Let_def)
    next
      case (Some m)
      with False ev matched_event_Inr [OF Some, of L] show ?thesis
        by (simp add: Let_def)
    qed
  qed
qed

lemma process_text_rows:
  assumes "parse_log_lines L (splitlines text) = Inr events0"
  shows "process_text L text esc md =
     Inr (let truth = find_ground_truth (splitlines text);
              events = compute_inference_duration events0;
              rows = List.map_filter (event_row L truth esc md) events
          in if rows = [] then [no_result_row L truth esc md events] else rows)"
  using assms by (simp add: process_text_def Let_def)

text \<open>
  Claim C4. When the file can be read, \<open>process_file\<close> returns rows, at least one, and in every
  row: \<open>objeto_verdad\<close> is the ground truth of the file (empty when there is none);
  \<open>acierto\<close> is 1 if and only if \<open>objeto_verdad\<close> and \<open>objeto_predicho\<close> are both non-empty
  and equal after \<open>lower()\<close>; whenever the ground truth is absent or empty \<open>acierto\<close> is the
  empty string, never 0; and \<open>acierto\<close> is always one of 1, 0 and the empty string.
\<close>

theorem process_file_acierto:
  assumes "read_text fs_root path = Inr text"
  shows "\<exists>rows. process_file L fs_root path esc md = Inr rows \<and> rows \<noteq> [] \<and>
     (\<forall>r \<in> set rows.
        objeto_verdad r = (case find_ground_truth (splitlines text) of None \<Rightarrow> [] | Some t \<Rightarrow> t) \<and>
        (acierto r = IntCell 1 \<longleftrightarrow>
           objeto_verdad r \<noteq> [] \<and> objeto_predicho r \<noteq> [] \<and>
           lower (objeto_verdad r) = lower (objeto_predicho r)) \<and>
        (objeto_verdad r = [] \<longrightarrow> acierto r = StrCell []) \<and>
        (acierto r = IntCell 1 \<or> acierto r = IntCell 0 \<or> acierto r = StrCell []))"
proof -
  obtain events0 where p: "parse_log_lines L (splitlines text) = Inr events0"
    using parse_log_lines_Inr by blast
  define truth where "truth = find_ground_truth (splitlines text)"
  define events where "events = compute_inference_duration events0"
  define rows where "rows = List.map_filter (event_row L truth esc md) events"
  define out where "out = (if rows = [] then [no_result_row L truth esc md events] else rows)"
  have run: "process_file L fs_root path esc md = Inr out"
    using assms process_text_rows [OF p, of esc md]
    by (simp add: process_file_def out_def rows_def events_def truth_def Let_def)
  have ne: "out \<noteq> []"
    by (simp add: out_def)
  have each: "objeto_verdad r = (case truth of None \<Rightarrow> [] | Some t \<Rightarrow> t) \<and>
        (acierto r = IntCell 1 \<longleftrightarrow>
           objeto_verdad r \<noteq> [] \<and> objeto_predicho r \<noteq> [] \<and>
           lower (objeto_verdad r) = lower (objeto_predicho r)) \<and>
        (objeto_verdad r = [] \<longrightarrow> acierto r = StrCell []) \<and>
        (acierto r = IntCell 1 \<or> acierto r = IntCell 0 \<or> acierto r = StrCell [])"
    if r: "r \<in> set out" for r
  proof (cases "rows = []")
    case True
    with r have "r = no_result_row L truth esc md events"
      by (simp add: out_def)
    then show ?thesis
      by (simp add: no_result_row_acierto)
  next
    case False
    with r have "r \<in> set rows"
      by (simp add: out_def)
    then obtain ev where "event_row L truth esc md ev = Some r"
      by (auto simp: rows_def in_set_map_filter)
    from event_row_acierto [OF this] show ?thesis
      by blast
  qed
  from run ne each show ?thesis
    unfolding truth_def by blast
qed

theorem process_file_acierto_witness:
  "read_text cup_files [''escenario 1'', ''MOBILE_cup.log''] = Inr cup_text \<and>
   (\<exists>rows. process_file example_lib cup_files [''escenario 1'', ''MOBILE_cup.log''] 1 ''MOBILE'' = Inr rows \<and>
      map objeto_verdad rows = [''cup''] \<and> map objeto_predicho rows = [''Cup''] \<and>
      map acierto rows = [IntCell 1])"
proof -
  have h: "read_text cup_files [''escenario 1'', ''MOBILE_cup.log''] = Inr cup_text"
    by code_simp
  have run: "process_file example_lib cup_files [''escenario 1'', ''MOBILE_cup.log''] 1 ''MOBILE'' =
      Inr [\<lparr>timestamp = ''2025-12-29T18:29:25.428165'', modo = ''MOBILE'', tipo_de_evento = ''result'',
            escenario = 1, distancia_m = [], iluminacion = ''LED'', objeto_verdad = ''cup'',
            objeto_predicho = ''Cup'', confianza = [], t_total_ms = ''00:00:00.000'',
            acierto = IntCell 1, notas = []\<rparr>]"
    by code_simp
  from process_file_acierto [OF h, of example_lib 1 "''MOBILE''"] h run show ?thesis
    by simp
qed

lemma last_ts_rev_None: "(\<forall>ev \<in> set evs. ts ev = None) \<Longrightarrow> last_ts (rev evs) = None"
  by (induction evs rule: rev_induct) simp_all

lemma last_ts_rev_Some:
  "i < length evs \<Longrightarrow> ts (evs ! i) = Some t \<Longrightarrow>
   (\<forall>j. i < j \<and> j < length evs \<longrightarrow> ts (evs ! j) = None) \<Longrightarrow> last_ts (rev evs) = Some t"
proof (induction evs rule: rev_induct)
  case Nil
  then show ?case by simp
next
  case (snoc x xs)
  show ?case
  proof (cases "i = length xs")
    case True
    with snoc.prems(2) show ?thesis by simp
  next
    case False
    with snoc.prems(1) have i: "i < length xs" by simp
    from snoc.prems(3) [rule_format, of "length xs"] i have "ts ((xs @ [x]) ! length xs) = None"
      by simp
    then have x: "ts x = None" by simp
    have later: "\<forall>j. i < j \<and> j < length xs \<longrightarrow> ts (xs ! j) = None"
    proof (intro allI impI)
      fix j assume j: "i < j \<and> j < length xs"
      from snoc.prems(3) [rule_format, of j] j have "ts ((xs @ [x]) ! j) = None" by simp
      with j show "ts (xs ! j) = None" by (simp add: nth_append)
    qed
    from snoc.prems(2) i have "ts (xs ! i) = Some t" by (simp add: nth_append)
    from snoc.IH [OF i this later] x show ?thesis by simp
  qed
qed

lemma last_dh_rev_Nil: "(\<forall>ev \<in> set evs. dict_get (duration_hms ev) = None) \<Longrightarrow> last_dh (rev evs) = []"
  by (induction evs rule: rev_induct) simp_all

lemma last_dh_rev_Some:
  "i < length evs \<Longrightarrow> dict_get (duration_hms (evs ! i)) = Some d \<Longrightarrow> d \<noteq> [] \<Longrightarrow>
   (\<forall>j. i < j \<and> j < length evs \<longrightarrow> dict_get (duration_hms (evs ! j)) = None) \<Longrightarrow>
   last_dh (rev evs) = d"
proof (induction evs rule: rev_induct)
  case Nil
  then show ?case by simp
next
  case (snoc x xs)
  show ?case
  proof (cases "i = length xs")
    case True
    with snoc.prems(2,3) show ?thesis by simp
  next
    case False
    with snoc.prems(1) have i: "i < length xs" by simp
    from snoc.prems(4) [rule_format, of "length xs"] i
    have "dict_get (duration_hms ((xs @ [x]) ! length xs)) = None"
      by simp
    then have x: "dict_get (duration_hms x) = None" by simp
    have later: "\<forall>j. i < j \<and> j < length xs \<longrightarrow> dict_get (duration_hms (xs ! j)) = None"
    proof (intro allI impI)
      fix j assume j: "i < j \<and> j < length xs"
      from snoc.prems(4) [rule_format, of j] j
      have "dict_get (duration_hms ((xs @ [x]) ! j)) = None" by simp
      with j show "dict_get (duration_hms (xs ! j)) = None" by (simp add: nth_append)
    qed
    from snoc.prems(2) i have "dict_get (duration_hms (xs ! i)) = Some d" by (simp add: nth_append)
    from snoc.IH [OF i this snoc.prems(3) later] x show ?thesis by simp
  qed
qed

text \<open>
  Claim C5. When the loop over the events yields no row, that is when every event has no
  event name or an empty one, \<open>process_file\<close> returns exactly one row: its type is
  \<open>no_result\<close>, its note \<open>no result lines found\<close>, its predicted label and confidence (and
  \<open>acierto\<close>) empty; its timestamp is that of the last event that has one, empty when
  none has; its duration is the \<open>duration_hms\<close> of the last event that has a non-empty one,
  empty when none has.
\<close>

theorem process_file_no_result:
  assumes "read_text fs_root path = Inr text"
    and "parse_log_lines L (splitlines text) = Inr events0"
    and "\<forall>ev \<in> set events0. event ev = None \<or> event ev = Some []"
  shows "\<exists>r. process_file L fs_root path esc md = Inr [r] \<and>
      tipo_de_evento r = ''no_result'' \<and> notas r = ''no result lines found'' \<and>
      objeto_predicho r = [] \<and> confianza r = [] \<and> acierto r = StrCell [] \<and>
      modo r = md \<and> escenario r = esc \<and>
      (let events = compute_inference_duration events0 in
         ((\<forall>ev \<in> set events. ts ev = None) \<longrightarrow> timestamp r = []) \<and>
         (\<forall>i t. i < length events \<and> ts (events ! i) = Some t \<and>
                (\<forall>j. i < j \<and> j < length events \<longrightarrow> ts (events ! j) = None) \<longrightarrow>
                timestamp r = isoformat L t) \<and>
         ((\<forall>ev \<in> set events. dict_get (duration_hms ev) = None) \<longrightarrow> t_total_ms r = []) \<and>
         (\<forall>i d. i < length events \<and> dict_get (duration_hms (events ! i)) = Some d \<and> d \<noteq> [] \<and>
                (\<forall>j. i < j \<and> j < length events \<longrightarrow> dict_get (duration_hms (events ! j)) = None) \<longrightarrow>
                t_total_ms r = d))"
proof -
  define truth where "truth = find_ground_truth (splitlines text)"
  define events where "events = compute_inference_duration events0"
  define r where "r = no_result_row L truth esc md events"
  have "map event events = map event events0"
    by (simp add: events_def map_event_compute)
  then have "set (map event events) = set (map event events0)"
    by simp
  with assms(3) have "\<forall>ev \<in> set events. event ev = None \<or> event ev = Some []"
    by (metis (no_types, lifting) image_iff list.set_map)
  then have "List.map_filter (event_row L truth esc md) events = []"
    by (simp add: map_filter_Nil_iff event_row_None)
  with assms(1) process_text_rows [OF assms(2), of esc md]
  have run: "process_file L fs_root path esc md = Inr [r]"
    by (simp add: process_file_def r_def events_def truth_def Let_def)
  have fields: "tipo_de_evento r = ''no_result''" "notas r = ''no result lines found''"
    "objeto_predicho r = []" "confianza r = []" "acierto r = StrCell []" "modo r = md" "escenario r = esc"
    by (simp_all add: r_def no_result_row_def)
  have tsr: "timestamp r = (case last_ts (rev events) of None \<Rightarrow> [] | Some t \<Rightarrow> isoformat L t)"
    and dhr: "t_total_ms r = last_dh (rev events)"
    by (simp_all add: r_def no_result_row_def)
  have t1: "timestamp r = []" if "\<forall>ev \<in> set events. ts ev = None"
    using that by (simp add: tsr last_ts_rev_None)
  have t2: "timestamp r = isoformat L t"
    if "i < length events \<and> ts (events ! i) = Some t \<and>
        (\<forall>j. i < j \<and> j < length events \<longrightarrow> ts (events ! j) = None)" for i t
    using that last_ts_rev_Some [of i events t] by (simp add: tsr)
  have d1: "t_total_ms r = []" if "\<forall>ev \<in> set events. dict_get (duration_hms ev) = None"
    using that by (simp add: dhr last_dh_rev_Nil)
  have d2: "t_total_ms r = d"
    if "i < length events \<and> dict_get (duration_hms (events ! i)) = Some d \<and> d \<noteq> [] \<and>
        (\<forall>j. i < j \<and> j < length events \<longrightarrow> dict_get (duration_hms (events ! j)) = None)" for i d
    using that last_dh_rev_Some [of i events d] by (simp add: dhr)
  from run fields t1 t2 d1 d2 show ?thesis
    unfolding Let_def events_def [symmetric] by blast
qed

theorem process_file_no_result_witness:
  "read_text noise_files [''escenario 1'', ''MOBILE_n.log''] = Inr noise_text \<and>
   map event
     (case parse_log_lines example_lib (splitlines noise_text) of Inr events \<Rightarrow> events | Inl e \<Rightarrow> []) =
     [Some [], None] \<and>
   process_file example_lib noise_files [''escenario 1'', ''MOBILE_n.log''] 1 ''MOBILE'' =
     Inr [\<lparr>timestamp = ''2025-12-29T18:29:25.428165'', modo = ''MOBILE'', tipo_de_evento = ''no_result'',
           escenario = 1, distancia_m = [], iluminacion = ''LED'', objeto_verdad = [],
           objeto_predicho = [], confianza = [], t_total_ms = ''00:00:00.000'',
           acierto = StrCell [], notas = ''no result lines found''\<rparr>]"
proof -
  have h: "read_text noise_files [''escenario 1'', ''MOBILE_n.log''] = Inr noise_text"
    by code_simp
  have p: "parse_log_lines example_lib (splitlines noise_text) =
      Inr [\<lparr>ts = Some (naive_at 0), component = Some ''ESP32'', event = Some [], details = ''capture'',
            raw = ''[2025-12-29T18:29:25.428165] ESP32:  - capture'',
            duration_ms = Absent, duration_hms = Absent\<rparr>,
           \<lparr>ts = None, component = None, event = None, details = ''noise'', raw = ''noise'',
            duration_ms = Absent, duration_hms = Absent\<rparr>]"
    by code_simp
  have e: "\<forall>ev \<in> set [\<lparr>ts = Some (naive_at 0), component = Some ''ESP32'', event = Some [], details = ''capture'',
            raw = ''[2025-12-29T18:29:25.428165] ESP32:  - capture'',
            duration_ms = Absent, duration_hms = Absent\<rparr>,
           \<lparr>ts = None, component = None, event = None, details = ''noise'', raw = ''noise'',
            duration_ms = Absent, duration_hms = Absent\<rparr>]. event ev = None \<or> event ev = Some []"
    by simp
  have run: "process_file example_lib noise_files [''escenario 1'', ''MOBILE_n.log''] 1 ''MOBILE'' =
     Inr [\<lparr>timestamp = ''2025-12-29T18:29:25.428165'', modo = ''MOBILE'', tipo_de_evento = ''no_result'',
           escenario = 1, distancia_m = [], iluminacion = ''LED'', objeto_verdad = [],
           objeto_predicho = [], confianza = [], t_total_ms = ''00:00:00.000'',
           acierto = StrCell [], notas = ''no result lines found''\<rparr>]"
    by code_simp
  from process_file_no_result [OF h p e, of 1 "''MOBILE''"] h p run show ?thesis
    by simp
qed

section \<open>Properties of the confidence field\<close>

lemma is_digit_digit_char: "d < 10 \<Longrightarrow> is_digit (digit_char d)"
  by (simp add: is_digit_def digit_char_def)

lemma str_nat_digits: "list_all is_digit (str_nat n)"
proof (induction n rule: str_nat.induct)
  case (1 n)
  show ?case
  proof (cases "n < 10")
    case True
    then show ?thesis by (simp add: str_nat_digit is_digit_digit_char)
  next
    case False
    with 1 have "list_all is_digit (str_nat (n div 10))" by simp
    with False show ?thesis
      by (subst str_nat.simps) (simp add: is_digit_digit_char)
  qed
qed

lemma nonneg_result:
  "0 \<le> m \<Longrightarrow> 0 < n \<Longrightarrow>
   (if c then (if n < 0 then NegInf else PosInf) else Finite (sgn n * m) e) = PosInf \<or>
   (\<exists>m' e'. (if c then (if n < 0 then NegInf else PosInf) else Finite (sgn n * m) e) = Finite m' e' \<and> 0 \<le> m')"
  for m n e :: int
  by simp

lemma scaled_nonneg: "0 \<le> a \<Longrightarrow> 0 \<le> a * 2 ^ x" for a :: int
  by simp

lemma scaled_pos: "0 < d \<Longrightarrow> 0 < d * 2 ^ x" for d :: int
  by simp

lemma to_double_nonneg:
  assumes "0 \<le> n" "0 < d"
  shows "to_double n d = PosInf \<or> (\<exists>m e. to_double n d = Finite m e \<and> 0 \<le> m)"
proof (cases "n = 0")
  case True
  then show ?thesis by (simp add: to_double_def)
next
  case False
  with assms have pos: "0 < n" by simp
  show ?thesis
    unfolding to_double_def Let_def if_not_P [OF False]
  proof (rule nonneg_result)
    show "0 < n" by (rule pos)
  next
    show "0 \<le> round_half_even
       (\<bar>n\<bar> * 2 ^ nat (- max ((if d * 2 ^ nat (bit_length \<bar>n\<bar> - bit_length d) \<le> \<bar>n\<bar> * 2 ^ nat (- (bit_length \<bar>n\<bar> - bit_length d))
                               then bit_length \<bar>n\<bar> - bit_length d else bit_length \<bar>n\<bar> - bit_length d - 1) - 52) (- 1074)))
       (d * 2 ^ nat (max ((if d * 2 ^ nat (bit_length \<bar>n\<bar> - bit_length d) \<le> \<bar>n\<bar> * 2 ^ nat (- (bit_length \<bar>n\<bar> - bit_length d))
                               then bit_length \<bar>n\<bar> - bit_length d else bit_length \<bar>n\<bar> - bit_length d - 1) - 52) (- 1074)))"
      by (intro round_half_even_nonneg scaled_nonneg scaled_pos abs_ge_zero assms)
  qed
qed

lemma digits_value_nonneg_aux:
  "list_all is_digit ds \<Longrightarrow> 0 \<le> a \<Longrightarrow> 0 \<le> foldl (\<lambda>a c. 10 * a + (int (of_char c) - 48)) a ds"
  by (induction ds arbitrary: a) (simp_all add: is_digit_def)

lemma digits_value_nonneg: "list_all is_digit ds \<Longrightarrow> 0 \<le> digits_value ds"
  by (simp add: digits_value_def digits_value_nonneg_aux)

lemma list_all_takeWhile: "list_all P (takeWhile P xs)"
  by (induction xs) simp_all

lemma py_float_nonneg:
  assumes "py_float c = Inr x"
  shows "x = PosInf \<or> (\<exists>m e. x = Finite m e \<and> 0 \<le> m)"
proof (cases "dropWhile is_digit c")
  case Nil
  with assms have "x = to_double (digits_value (takeWhile is_digit c)) 1"
    by (simp add: py_float_def Let_def split: if_splits)
  with to_double_nonneg [of "digits_value (takeWhile is_digit c)" 1] show ?thesis
    by (simp add: digits_value_nonneg list_all_takeWhile)
next
  case (Cons dot fp)
  with assms have x: "x = to_double (digits_value (takeWhile is_digit c @ fp)) (10 ^ length fp)"
    and fp: "list_all is_digit fp"
    by (simp_all add: py_float_def Let_def split: if_splits)
  from fp have "0 \<le> digits_value (takeWhile is_digit c @ fp)"
    by (intro digits_value_nonneg) (simp add: list_all_takeWhile)
  with to_double_nonneg [of "digits_value (takeWhile is_digit c @ fp)" "10 ^ length fp"] x
  show ?thesis by simp
qed

lemma fmt_3f_shape:
  assumes "0 \<le> m"
  shows "\<exists>ip a b c. fmt_3f (Finite m e) = ip @ [CHR ''.'', a, b, c] \<and> ip \<noteq> [] \<and>
           list_all is_digit ip \<and> is_digit a \<and> is_digit b \<and> is_digit c"
proof -
  define n where "n = round_half_even (m * 1000 * 2 ^ nat e) (2 ^ nat (- e))"
  have n: "0 \<le> n"
    unfolding n_def using assms by (intro round_half_even_nonneg) simp_all
  have "0 \<le> n mod 1000" "n mod 1000 < 1000"
    by simp_all
  then have three: "fmt_0d 3 (n mod 1000) =
      [digit_char (nat (n mod 1000) div 100), digit_char (nat (n mod 1000) div 10 mod 10),
       digit_char (nat (n mod 1000) mod 10)]"
    by (rule fmt_0d_three)
  have lt: "nat (n mod 1000) div 100 < 10"
    by (simp add: div_less_iff_less_mult nat_less_iff)
  have "fmt_3f (Finite m e) = str_nat (nat (n div 1000)) @
      [CHR ''.'', digit_char (nat (n mod 1000) div 100), digit_char (nat (n mod 1000) div 10 mod 10),
       digit_char (nat (n mod 1000) mod 10)]"
    using assms by (simp add: n_def [symmetric] Let_def three)
  with lt show ?thesis
    by (auto simp: str_nat_not_Nil str_nat_digits is_digit_digit_char)
qed

lemma details_pop_durations [simp]: "details (pop_durations ev) = details ev"
  by (simp add: pop_durations_def)

lemma map_details_compute: "map details (compute_inference_duration events) = map details events"
proof -
  have "map details (compute_inference_duration events) =
        map details (map pop_durations (compute_inference_duration events))"
    by simp
  also have "\<dots> = map details (map pop_durations events)"
    by (simp only: map_pop_compute)
  finally show ?thesis by simp
qed

lemma event_row_confianza:
  assumes "event_row L truth esc md ev = Some r"
  shows "confianza r = (case extract_conf (details ev) of None \<Rightarrow> [] | Some x \<Rightarrow> fmt_3f x)"
  using assms by (rule event_row_Some) simp

lemma extract_conf_Some:
  assumes "extract_conf dets = Some x"
  obtains m c where "re_search CONF_RE dets = Some m" "group m ''conf'' = Some c" "py_float c = Inr x"
  using assms by (auto simp: extract_conf_def split: option.splits sum.splits)

lemma emits_row_iff: "emits_row ev \<longleftrightarrow> event_row L truth esc md ev \<noteq> None"
  by (cases "event ev") (simp_all add: emits_row_def event_row_None)

lemma map_filter_emits:
  "List.map_filter (event_row L truth esc md) evs =
     map (\<lambda>ev. the (event_row L truth esc md ev)) (filter emits_row evs)"
  by (induction evs) (auto simp: List.map_filter_simps emits_row_iff [of _ L truth esc md] split: option.splits)

lemma filter_emits_cong:
  assumes "map event xs = map event ys" and "map details xs = map details ys"
  shows "map event (filter emits_row xs) = map event (filter emits_row ys) \<and>
         map details (filter emits_row xs) = map details (filter emits_row ys)"
  using assms
proof (induction xs arbitrary: ys)
  case Nil
  then show ?case by simp
next
  case (Cons x xs)
  then obtain y ys' where ys: "ys = y # ys'" by (cases ys) auto
  with Cons.prems have hd: "event x = event y" "details x = details y"
    and tl: "map event xs = map event ys'" "map details xs = map details ys'"
    by simp_all
  from hd(1) have "emits_row x = emits_row y"
    by (simp add: emits_row_def)
  with Cons.IH [OF tl] hd ys show ?case
    by simp
qed

lemma filter_emits_compute:
  "map event (filter emits_row (compute_inference_duration events)) = map event (filter emits_row events) \<and>
   map details (filter emits_row (compute_inference_duration events)) = map details (filter emits_row events)"
  by (rule filter_emits_cong) (simp_all only: map_event_compute map_details_compute)

lemma confianza_shape:
  "(case extract_conf dets of None \<Rightarrow> [] | Some x \<Rightarrow> fmt_3f x) = [] \<or>
   (case extract_conf dets of None \<Rightarrow> [] | Some x \<Rightarrow> fmt_3f x) = ''inf'' \<or>
   (\<exists>ip a b d. (case extract_conf dets of None \<Rightarrow> [] | Some x \<Rightarrow> fmt_3f x) = ip @ [CHR ''.'', a, b, d] \<and>
      ip \<noteq> [] \<and> list_all is_digit ip \<and> is_digit a \<and> is_digit b \<and> is_digit d)"
proof (cases "extract_conf dets")
  case None
  then show ?thesis by simp
next
  case (Some x)
  then obtain m c where "py_float c = Inr x"
    by (rule extract_conf_Some)
  from py_float_nonneg [OF this] show ?thesis
  proof
    assume "x = PosInf"
    with Some show ?thesis by simp
  next
    assume "\<exists>m e. x = Finite m e \<and> 0 \<le> m"
    then obtain mm e where "x = Finite mm e" "0 \<le> mm" by blast
    with Some fmt_3f_shape [of mm e] show ?thesis by simp
  qed
qed

lemma extract_conf_unfold:
  "(case extract_conf dets of None \<Rightarrow> [] | Some x \<Rightarrow> fmt_3f x) =
     (case re_search CONF_RE dets of
        None \<Rightarrow> []
      | Some m \<Rightarrow>
          (case group m ''conf'' of
             None \<Rightarrow> []
           | Some c \<Rightarrow> (case py_float c of Inl e \<Rightarrow> [] | Inr x \<Rightarrow> fmt_3f x)))"
  by (simp add: extract_conf_def split: option.splits sum.splits)

text \<open>
  Claim C8, as amended. \<open>process_file\<close> returns one row for each event that passes the guard
  of the loop, in the order of the events, or the single \<open>no_result\<close> row, whose confidence
  is empty, when no event passes. The row of an event carries the stripped name of that event,
  and its confidence is decided by the details of that same event: empty when \<open>CONF_RE\<close>
  (\<open>with confidence <number>\<close>, ignoring case) finds nothing there, and otherwise \<open>float\<close> of
  the captured text, formatted with \<open>.3f\<close>: digits, a point and exactly three digits, or
  \<open>inf\<close> when the captured numeral overflows a float. The program checks no range: the value
  need not lie between 0 and 1.
\<close>

theorem process_file_confianza:
  assumes "read_text fs_root path = Inr text"
    and "parse_log_lines L (splitlines text) = Inr events"
  shows "\<exists>rows. process_file L fs_root path esc md = Inr rows \<and>
     (if filter emits_row events = []
      then length rows = 1 \<and> tipo_de_evento (rows ! 0) = ''no_result'' \<and> confianza (rows ! 0) = []
      else length rows = length (filter emits_row events) \<and>
        (\<forall>j. j < length rows \<longrightarrow>
           Some (tipo_de_evento (rows ! j)) = map_option strip (event (filter emits_row events ! j)) \<and>
           confianza (rows ! j) =
             (case re_search CONF_RE (details (filter emits_row events ! j)) of
                None \<Rightarrow> []
              | Some m \<Rightarrow>
                  (case group m ''conf'' of
                     None \<Rightarrow> []
                   | Some c \<Rightarrow> (case py_float c of Inl e \<Rightarrow> [] | Inr x \<Rightarrow> fmt_3f x))) \<and>
           (confianza (rows ! j) = [] \<or> confianza (rows ! j) = ''inf'' \<or>
            (\<exists>ip a b d. confianza (rows ! j) = ip @ [CHR ''.'', a, b, d] \<and> ip \<noteq> [] \<and>
               list_all is_digit ip \<and> is_digit a \<and> is_digit b \<and> is_digit d))))"
proof -
  define truth where "truth = find_ground_truth (splitlines text)"
  define cevents where "cevents = compute_inference_duration events"
  define named where "named = filter emits_row events"
  define cnamed where "cnamed = filter emits_row cevents"
  define loop where "loop = List.map_filter (event_row L truth esc md) cevents"
  define rows where "rows = (if loop = [] then [no_result_row L truth esc md cevents] else loop)"
  have "process_text L text esc md = Inr rows"
    using process_text_rows [OF assms(2), of esc md]
    by (simp add: rows_def loop_def cevents_def truth_def Let_def)
  with assms(1) have run: "process_file L fs_root path esc md = Inr rows"
    by (simp add: process_file_def)
  have loop: "loop = map (\<lambda>ev. the (event_row L truth esc md ev)) cnamed"
    unfolding loop_def cnamed_def by (rule map_filter_emits)
  have same: "map event cnamed = map event named" "map details cnamed = map details named"
    unfolding cnamed_def named_def cevents_def using filter_emits_compute [of events] by simp_all
  from same(1) have len: "length cnamed = length named"
    by (rule map_eq_imp_length_eq)
  show ?thesis
  proof (cases "named = []")
    case True
    with len loop have "loop = []" by simp
    then have "rows = [no_result_row L truth esc md cevents]"
      by (simp add: rows_def)
    then have "length rows = 1 \<and> tipo_de_evento (rows ! 0) = ''no_result'' \<and> confianza (rows ! 0) = []"
      by (simp add: no_result_row_def)
    with run show ?thesis
      unfolding named_def [symmetric] if_P [OF True] by blast
  next
    case False
    with len loop have "loop \<noteq> []" by auto
    then have rows: "rows = map (\<lambda>ev. the (event_row L truth esc md ev)) cnamed"
      by (simp add: rows_def loop)
    have each: "Some (tipo_de_evento (rows ! j)) = map_option strip (event (named ! j)) \<and>
           confianza (rows ! j) =
             (case re_search CONF_RE (details (named ! j)) of
                None \<Rightarrow> []
              | Some m \<Rightarrow>
                  (case group m ''conf'' of
                     None \<Rightarrow> []
                   | Some c \<Rightarrow> (case py_float c of Inl e \<Rightarrow> [] | Inr x \<Rightarrow> fmt_3f x))) \<and>
           (confianza (rows ! j) = [] \<or> confianza (rows ! j) = ''inf'' \<or>
            (\<exists>ip a b d. confianza (rows ! j) = ip @ [CHR ''.'', a, b, d] \<and> ip \<noteq> [] \<and>
               list_all is_digit ip \<and> is_digit a \<and> is_digit b \<and> is_digit d))"
      if j: "j < length rows" for j
    proof -
      from j rows have jc: "j < length cnamed" by simp
      then have "cnamed ! j \<in> set cnamed" by simp
      then have "emits_row (cnamed ! j)"
        by (simp add: cnamed_def)
      then obtain r where r: "event_row L truth esc md (cnamed ! j) = Some r"
        using emits_row_iff [of "cnamed ! j" L truth esc md] by auto
      with jc rows have rj: "rows ! j = r" by simp
      from jc same have ev: "event (cnamed ! j) = event (named ! j)"
        and dt: "details (cnamed ! j) = details (named ! j)"
        by (metis length_map nth_map len)+
      from r obtain name where name: "event (cnamed ! j) = Some name" "tipo_de_evento r = strip name"
        by (rule event_row_Some) simp
      have c: "confianza r = (case extract_conf (details (named ! j)) of None \<Rightarrow> [] | Some x \<Rightarrow> fmt_3f x)"
        using event_row_confianza [OF r] dt by simp
      have "Some (tipo_de_evento (rows ! j)) = map_option strip (event (named ! j))"
        using name ev rj by simp
      moreover have "confianza (rows ! j) =
             (case re_search CONF_RE (details (named ! j)) of
                None \<Rightarrow> []
              | Some m \<Rightarrow>
                  (case group m ''conf'' of
                     None \<Rightarrow> []
                   | Some c \<Rightarrow> (case py_float c of Inl e \<Rightarrow> [] | Inr x \<Rightarrow> fmt_3f x)))"
        unfolding rj c by (rule extract_conf_unfold)
      moreover have "confianza (rows ! j) = [] \<or> confianza (rows ! j) = ''inf'' \<or>
            (\<exists>ip a b d. confianza (rows ! j) = ip @ [CHR ''.'', a, b, d] \<and> ip \<noteq> [] \<and>
               list_all is_digit ip \<and> is_digit a \<and> is_digit b \<and> is_digit d)"
        unfolding rj c by (rule confianza_shape)
      ultimately show ?thesis by blast
    qed
    from rows len have "length rows = length named" by simp
    with each run show ?thesis
      unfolding named_def [symmetric] if_not_P [OF False] by blast
  qed
qed

theorem process_file_confianza_witness:
  "read_text pair_files [''escenario 1'', ''MOBILE_p.log''] = Inr pair_text \<and>
   (\<exists>rows. process_file example_lib pair_files [''escenario 1'', ''MOBILE_p.log''] 1 ''MOBILE'' = Inr rows \<and>
      length rows = 2 \<and>
      tipo_de_evento (rows ! 0) = ''result'' \<and> confianza (rows ! 0) = ''0.900'' \<and>
      tipo_de_evento (rows ! 1) = ''speaking'' \<and> confianza (rows ! 1) = [])"
proof -
  let ?e0 = "\<lparr>ts = Some (naive_at 0), component = Some ''SCENE'', event = Some ''result'',
     details = ''cup with confidence 0.900'',
     raw = ''[2025-12-29T18:29:25.428165] SCENE: result - cup with confidence 0.900'',
     duration_ms = Absent, duration_hms = Absent\<rparr>"
  let ?e1 = "\<lparr>ts = Some (naive_at 218568), component = Some ''TTS'', event = Some ''speaking'',
     details = ''hello'', raw = ''[2025-12-29T18:29:25.646733] TTS: speaking - hello'',
     duration_ms = Absent, duration_hms = Absent\<rparr>"
  have h: "read_text pair_files [''escenario 1'', ''MOBILE_p.log''] = Inr pair_text"
    by code_simp
  have p: "parse_log_lines example_lib (splitlines pair_text) = Inr [?e0, ?e1]"
    by code_simp
  have named: "filter emits_row [?e0, ?e1] = [?e0, ?e1]"
    by (simp add: emits_row_def)
  have c0: "(case re_search CONF_RE ''cup with confidence 0.900'' of
               None \<Rightarrow> []
             | Some m \<Rightarrow>
                 (case group m ''conf'' of
                    None \<Rightarrow> []
                  | Some c \<Rightarrow> (case py_float c of Inl e \<Rightarrow> [] | Inr x \<Rightarrow> fmt_3f x))) = ''0.900''"
    by code_simp
  have c1: "(case re_search CONF_RE ''hello'' of
               None \<Rightarrow> []
             | Some m \<Rightarrow>
                 (case group m ''conf'' of
                    None \<Rightarrow> []
                  | Some c \<Rightarrow> (case py_float c of Inl e \<Rightarrow> [] | Inr x \<Rightarrow> fmt_3f x))) = []"
    by code_simp
  have s0: "strip ''result'' = ''result''" and s1: "strip ''speaking'' = ''speaking''"
    by code_simp+
  from process_file_confianza [OF h p, of 1 "''MOBILE''"] obtain rows where
    run: "process_file example_lib pair_files [''escenario 1'', ''MOBILE_p.log''] 1 ''MOBILE'' = Inr rows"
    and len: "length rows = 2"
    and each: "\<And>j. j < length rows \<Longrightarrow>
           Some (tipo_de_evento (rows ! j)) = map_option strip (event ([?e0, ?e1] ! j)) \<and>
           confianza (rows ! j) =
             (case re_search CONF_RE (details ([?e0, ?e1] ! j)) of
                None \<Rightarrow> []
              | Some m \<Rightarrow>
                  (case group m ''conf'' of
                     None \<Rightarrow> []
                   | Some c \<Rightarrow> (case py_float c of Inl e \<Rightarrow> [] | Inr x \<Rightarrow> fmt_3f x)))"
    unfolding named by auto
  from each [of 0] len have "tipo_de_evento (rows ! 0) = ''result'' \<and> confianza (rows ! 0) = ''0.900''"
    by (simp add: c0 s0)
  moreover from each [of 1] len have "tipo_de_evento (rows ! 1) = ''speaking'' \<and> confianza (rows ! 1) = []"
    by (simp add: c1 s1)
  ultimately show ?thesis
    using h run len by blast
qed

text \<open>
  No range is enforced: \<open>with confidence 5\<close> gives the confidence \<open>5.000\<close>.
\<close>

theorem process_file_confianza_out_of_range:
  "process_file example_lib five_files [''escenario 1'', ''MOBILE_5.log''] 1 ''MOBILE'' =
     Inr [\<lparr>timestamp = ''2025-12-29T18:29:25.428165'', modo = ''MOBILE'', tipo_de_evento = ''result'',
           escenario = 1, distancia_m = [], iluminacion = ''LED'', objeto_verdad = [],
           objeto_predicho = ''cup'', confianza = ''5.000'', t_total_ms = ''00:00:00.000'',
           acierto = StrCell [], notas = []\<rparr>]"
  by code_simp

section \<open>Properties of \<open>main\<close>\<close>

lemma with_key_filter:
  "map (\<lambda>(t, r). (r, Some t)) (List.map_filter (\<lambda>(r, k). map_option (\<lambda>t. (t, r)) k) paired) =
   filter (\<lambda>p. snd p \<noteq> None) paired"
  by (induction paired) (auto simp: List.map_filter_simps split: option.splits)

lemma sort_values_fst:
  "sort_values paired =
   map fst (map (\<lambda>(t, r). (r, Some t))
              (sort_key fst (List.map_filter (\<lambda>(r, k). map_option (\<lambda>t. (t, r)) k) paired))
            @ filter (\<lambda>p. snd p = None) paired)"
proof -
  have "(\<lambda>(r, k). k = None) = (\<lambda>p. snd p = None)" for dummy :: 'a
    by auto
  then show ?thesis
    by (simp add: sort_values_def case_prod_unfold comp_def)
qed

lemma sort_values_mset:
  "mset (map (\<lambda>(t, r). (r, Some t))
              (sort_key fst (List.map_filter (\<lambda>(r, k). map_option (\<lambda>t. (t, r)) k) paired))
            @ filter (\<lambda>p. snd p = None) paired) = mset paired"
proof -
  let ?nn = "List.map_filter (\<lambda>(r, k). map_option (\<lambda>t. (t, r)) k) paired"
  have "mset (map (\<lambda>(t, r). (r, Some t)) (sort_key fst ?nn)) = mset (map (\<lambda>(t, r). (r, Some t)) ?nn)"
    by simp
  also have "\<dots> = mset (filter (\<lambda>p. snd p \<noteq> None) paired)"
    by (simp only: with_key_filter)
  finally have "mset (map (\<lambda>(t, r). (r, Some t)) (sort_key fst ?nn) @ filter (\<lambda>p. snd p = None) paired) =
      mset (filter (\<lambda>p. snd p \<noteq> None) paired) + mset (filter (\<lambda>p. snd p = None) paired)"
    by simp
  also have "\<dots> = mset paired"
    using multiset_partition [of "mset paired" "\<lambda>p. snd p \<noteq> None"] by simp
  finally show ?thesis .
qed

lemma filter_None_with_key: "filter (\<lambda>p. snd p = None) (map (\<lambda>(t, r). (r, Some t)) xs) = []"
  by (induction xs) auto

lemma filter_Some_with_key:
  "filter (\<lambda>p. snd p = Some t) (map (\<lambda>(t, r). (r, Some t)) xs) =
   map (\<lambda>(t, r). (r, Some t)) (filter (\<lambda>x. fst x = t) xs)"
  by (induction xs) auto

lemma sort_values_stable:
  "filter (\<lambda>p. snd p = k)
     (map (\<lambda>(t, r). (r, Some t))
              (sort_key fst (List.map_filter (\<lambda>(r, k). map_option (\<lambda>t. (t, r)) k) paired))
            @ filter (\<lambda>p. snd p = None) paired) = filter (\<lambda>p. snd p = k) paired"
proof (cases k)
  case None
  show ?thesis
    unfolding None filter_append filter_None_with_key by simp
next
  case (Some t)
  let ?nn = "List.map_filter (\<lambda>(r, k). map_option (\<lambda>t. (t, r)) k) paired"
  note push = filter_Some_with_key
  have "filter (\<lambda>p. snd p = Some t) (map (\<lambda>(t, r). (r, Some t)) (sort_key fst ?nn)) =
      map (\<lambda>(t, r). (r, Some t)) (filter (\<lambda>x. fst x = t) (sort_key fst ?nn))"
    by (rule push)
  also have "\<dots> = map (\<lambda>(t, r). (r, Some t)) (filter (\<lambda>x. fst x = t) ?nn)"
    by (simp only: sort_key_stable)
  also have "\<dots> = filter (\<lambda>p. snd p = Some t) (map (\<lambda>(t, r). (r, Some t)) ?nn)"
    by (rule push [symmetric])
  also have "\<dots> = filter (\<lambda>p. snd p = Some t) (filter (\<lambda>p. snd p \<noteq> None) paired)"
    by (simp only: with_key_filter)
  also have "\<dots> = filter (\<lambda>p. snd p = Some t) paired"
    by (induction paired) auto
  finally have first: "filter (\<lambda>p. snd p = Some t) (map (\<lambda>(t, r). (r, Some t)) (sort_key fst ?nn)) =
      filter (\<lambda>p. snd p = Some t) paired" .
  have "filter (\<lambda>p. snd p = Some t) (filter (\<lambda>p. snd p = None) paired) = []"
    by (induction paired) auto
  then show ?thesis
    unfolding Some filter_append first by simp
qed

lemma sort_values_sorted:
  "sorted_wrt key_order
     (map (\<lambda>(t, r). (r, Some t))
              (sort_key fst (List.map_filter (\<lambda>(r, k). map_option (\<lambda>t. (t, r)) k) paired))
            @ filter (\<lambda>p. snd p = None) paired)"
proof -
  let ?nn = "List.map_filter (\<lambda>(r, k). map_option (\<lambda>t. (t, r)) k) paired"
  have "sorted (map fst (sort_key fst ?nn))"
    by (rule sorted_sort_key)
  then have "sorted_wrt (\<lambda>x y. fst x \<le> fst y) (sort_key fst ?nn)"
    by (simp add: sorted_wrt_map)
  then have a: "sorted_wrt key_order (map (\<lambda>(t, r). (r, Some t)) (sort_key fst ?nn))"
    by (simp add: sorted_wrt_map key_order_def case_prod_unfold)
  have b: "sorted_wrt key_order (filter (\<lambda>p. snd p = None) paired)"
    by (induction paired) (auto simp: key_order_def)
  have c: "key_order x y" if "y \<in> set (filter (\<lambda>p. snd p = None) paired)" for x y :: "'a \<times> int option"
    using that by (auto simp: key_order_def split: option.splits)
  from a b c show ?thesis
    by (simp add: sorted_wrt_append)
qed

lemma length_reindex [simp]: "length (reindex n rs) = length rs"
  by (induction rs arbitrary: n) simp_all

lemma reindex_nth: "i < length rs \<Longrightarrow> reindex n rs ! i = (rs ! i)\<lparr>id_prueba := n + int i + 1\<rparr>"
proof (induction rs arbitrary: n i)
  case Nil
  then show ?case by simp
next
  case (Cons r rs)
  show ?case
  proof (cases i)
    case 0
    then show ?thesis by simp
  next
    case (Suc j)
    with Cons.prems have "j < length rs" by simp
    from Cons.IH [OF this, of "n + 1"] Suc show ?thesis
      by (simp add: algebra_simps)
  qed
qed

text \<open>
  Claim C6. Let \<open>rows\<close> be the rows accumulated when all files are processed and \<open>parsed\<close>
  the instants \<open>to_datetime\<close> gives for their timestamps, one per row (\<open>None\<close> for an
  unparseable one). Then \<open>main\<close> returns the rows in the order \<open>srt\<close>, where \<open>srt\<close> is a
  rearrangement of the rows with their instants, ascending by instant with the rows without
  instant last, in which the rows of equal instant keep their earlier relative order (a
  stable sort); and the row at position \<open>i\<close> (from 0) gets \<open>id_prueba = i + 1\<close>, so the
  identifiers are 1..N in the new order.
\<close>

theorem main_sorted:
  assumes "to_datetime L (map timestamp (collect_rows L fs_root)) = Inr parsed"
    and "length parsed = length (collect_rows L fs_root)"
  shows "\<exists>srt out.
           mset srt = mset (zip (collect_rows L fs_root) parsed) \<and>
           sorted_wrt key_order srt \<and>
           (\<forall>k. filter (\<lambda>p. snd p = k) srt =
                filter (\<lambda>p. snd p = k) (zip (collect_rows L fs_root) parsed)) \<and>
           main L fs_root = Inr out \<and> length out = length (collect_rows L fs_root) \<and>
           (\<forall>i. i < length out \<longrightarrow> out ! i = (fst (srt ! i))\<lparr>id_prueba := int i + 1\<rparr>)"
proof -
  define rows where "rows = collect_rows L fs_root"
  define paired where "paired = zip rows parsed"
  define srt where "srt =
     map (\<lambda>(t, r). (r, Some t))
        (sort_key fst (List.map_filter (\<lambda>(r, k). map_option (\<lambda>t. (t, r)) k) paired))
     @ filter (\<lambda>p. snd p = None) paired"
  define out where "out = reindex 0 (map fst srt)"
  have m: "mset srt = mset paired"
    unfolding srt_def by (rule sort_values_mset)
  have s: "sorted_wrt key_order srt"
    unfolding srt_def by (rule sort_values_sorted)
  have st: "filter (\<lambda>p. snd p = k) srt = filter (\<lambda>p. snd p = k) paired" for k
    unfolding srt_def by (rule sort_values_stable)
  have sv: "sort_values paired = map fst srt"
    unfolding srt_def by (rule sort_values_fst)
  from m have "size (mset srt) = size (mset paired)" by simp
  then have len: "length srt = length rows"
    using assms(2) by (simp add: paired_def rows_def)
  have run: "main L fs_root = Inr out"
  proof (cases "rows = []")
    case True
    with len have "srt = []" by simp
    with True show ?thesis
      by (simp add: main_def assemble_def rows_def [symmetric] out_def)
  next
    case False
    with assms(1) show ?thesis
      by (simp add: main_def assemble_def rows_def [symmetric] out_def sv [symmetric] paired_def)
  qed
  have lo: "length out = length rows"
    by (simp add: out_def len)
  have each: "out ! i = (fst (srt ! i))\<lparr>id_prueba := int i + 1\<rparr>" if "i < length out" for i
    using that by (simp add: out_def reindex_nth)
  from m s st run lo each show ?thesis
    unfolding paired_def rows_def by blast
qed

lemma collect_rows_sort_files:
  "collect_rows example_lib sort_files =
     [\<lparr>timestamp = ''2025-12-29T18:29:25.646733'', modo = ''MOBILE'', tipo_de_evento = ''later'',
       escenario = 1, distancia_m = [], iluminacion = ''LED'', objeto_verdad = [],
       objeto_predicho = [], confianza = [], t_total_ms = ''00:00:00.000'',
       acierto = StrCell [], notas = [], id_prueba = 1\<rparr>,
      \<lparr>timestamp = ''2025-12-29T18:29:25.428165'', modo = ''MOBILE'', tipo_de_evento = ''earlier'',
       escenario = 2, distancia_m = [], iluminacion = ''LED'', objeto_verdad = [],
       objeto_predicho = [], confianza = [], t_total_ms = ''00:00:00.000'',
       acierto = StrCell [], notas = [], id_prueba = 2\<rparr>,
      \<lparr>timestamp = [], modo = ''MOBILE'', tipo_de_evento = ''parse_error'',
       escenario = 3, distancia_m = [], iluminacion = [], objeto_verdad = [],
       objeto_predicho = [], confianza = [], t_total_ms = [],
       acierto = StrCell [], notas = ''parse error: error'', id_prueba = 3\<rparr>]"
  by code_simp

theorem main_sorted_witness:
  "to_datetime example_lib (map timestamp (collect_rows example_lib sort_files)) =
     Inr [Some 218568000, Some 0, None] \<and>
   main example_lib sort_files =
     Inr [\<lparr>timestamp = ''2025-12-29T18:29:25.428165'', modo = ''MOBILE'', tipo_de_evento = ''earlier'',
           escenario = 2, distancia_m = [], iluminacion = ''LED'', objeto_verdad = [],
           objeto_predicho = [], confianza = [], t_total_ms = ''00:00:00.000'',
           acierto = StrCell [], notas = [], id_prueba = 1\<rparr>,
          \<lparr>timestamp = ''2025-12-29T18:29:25.646733'', modo = ''MOBILE'', tipo_de_evento = ''later'',
           escenario = 1, distancia_m = [], iluminacion = ''LED'', objeto_verdad = [],
           objeto_predicho = [], confianza = [], t_total_ms = ''00:00:00.000'',
           acierto = StrCell [], notas = [], id_prueba = 2\<rparr>,
          \<lparr>timestamp = [], modo = ''MOBILE'', tipo_de_evento = ''parse_error'',
           escenario = 3, distancia_m = [], iluminacion = [], objeto_verdad = [],
           objeto_predicho = [], confianza = [], t_total_ms = [],
           acierto = StrCell [], notas = ''parse error: error'', id_prueba = 3\<rparr>]"
proof -
  have h1: "to_datetime example_lib (map timestamp (collect_rows example_lib sort_files)) =
     Inr [Some 218568000, Some 0, None]"
    unfolding collect_rows_sort_files by (simp add: example_lib_def)
  have h2: "length [Some 218568000, Some (0::int), None] = length (collect_rows example_lib sort_files)"
    by (simp add: collect_rows_sort_files)
  have run: "main example_lib sort_files =
     Inr [\<lparr>timestamp = ''2025-12-29T18:29:25.428165'', modo = ''MOBILE'', tipo_de_evento = ''earlier'',
           escenario = 2, distancia_m = [], iluminacion = ''LED'', objeto_verdad = [],
           objeto_predicho = [], confianza = [], t_total_ms = ''00:00:00.000'',
           acierto = StrCell [], notas = [], id_prueba = 1\<rparr>,
          \<lparr>timestamp = ''2025-12-29T18:29:25.646733'', modo = ''MOBILE'', tipo_de_evento = ''later'',
           escenario = 1, distancia_m = [], iluminacion = ''LED'', objeto_verdad = [],
           objeto_predicho = [], confianza = [], t_total_ms = ''00:00:00.000'',
           acierto = StrCell [], notas = [], id_prueba = 2\<rparr>,
          \<lparr>timestamp = [], modo = ''MOBILE'', tipo_de_evento = ''parse_error'',
           escenario = 3, distancia_m = [], iluminacion = [], objeto_verdad = [],
           objeto_predicho = [], confianza = [], t_total_ms = [],
           acierto = StrCell [], notas = ''parse error: error'', id_prueba = 3\<rparr>]"
    unfolding main_def assemble_def h1
    by (simp add: collect_rows_sort_files sort_values_def List.map_filter_simps)
  from main_sorted [OF h1 h2] h1 run show ?thesis
    by simp
qed

text \<open>
  Claim C1 fails on the code. The directory \<open>escenario 1\<close> holds the regular files
  \<open>MOBILE_a.log\<close>, \<open>MOBILE_b.log\<close> and \<open>notes.txt\<close>. The \<open>try\<close> that calls \<open>process_file\<close> is
  indented under \<open>for dirp\<close>, so it runs once for the directory, on the last entry of the
  sorted listing: the only row comes from \<open>notes.txt\<close>, no row comes from either
  \<open>MOBILE\<close> file.
\<close>

theorem collect_rows_last_entry_only:
  "collect_rows example_lib two_files =
     [\<lparr>timestamp = ''2025-12-29T18:29:25.646733'', modo = ''MOBILE'', tipo_de_evento = ''note'',
       escenario = 1, distancia_m = [], iluminacion = ''LED'', objeto_verdad = [],
       objeto_predicho = [], confianza = [], t_total_ms = ''00:00:00.000'',
       acierto = StrCell [], notas = [], id_prueba = 1\<rparr>]"
  by code_simp

section \<open>Properties of \<open>LINE_RE\<close>\<close>




























lemma strip_Nil [simp]: "strip [] = []"
  by (simp add: strip_def lstrip_def rstrip_def)





end
